theory Spec2Isabelle
  imports Complex_Main "HOL-Library.Product_Lexorder"
begin

section \<open>Python values used by the crawler\<close>

text \<open>
  Python \<open>str\<close> values are modelled as \<^typ>\<open>string\<close>, a list of characters;
  \<open>len\<close> is \<^const>\<open>length\<close>.  Exceptions are values of \<open>py_error\<close>,
  and a call that may raise returns \<open>py_error + 'a\<close> (\<open>Inl\<close> the exception).
\<close>

datatype py_error = ValueError | IndexError | RequestError | OtherError

text \<open>
  \<open>str.isspace\<close> on one character, for the code points a \<^typ>\<open>char\<close> can hold:
  tab to carriage return, the four separators FS..US, the space, NEL and the
  no-break space.
\<close>

definition py_isspace :: "char \<Rightarrow> bool" where
  "py_isspace c =
     (let n = (of_char c :: nat)
      in (9 \<le> n \<and> n \<le> 13) \<or> (28 \<le> n \<and> n \<le> 31) \<or> n = 32 \<or> n = 133 \<or> n = 160)"

definition py_lstrip :: "string \<Rightarrow> string" where
  "py_lstrip s = dropWhile py_isspace s"

definition py_rstrip :: "string \<Rightarrow> string" where
  "py_rstrip s = rev (dropWhile py_isspace (rev s))"

definition py_strip :: "string \<Rightarrow> string" where
  "py_strip s = py_rstrip (py_lstrip s)"


text \<open>
  \<open>str.lower\<close> on one character, for the code points a \<^typ>\<open>char\<close> can hold: the
  ASCII capitals and the capitals of Latin-1 (U+00C0 to U+00DE without the
  multiplication sign) move up by 32.
\<close>

definition py_lower_char :: "char \<Rightarrow> char" where
  "py_lower_char c =
     (let n = (of_char c :: nat)
      in if (65 \<le> n \<and> n \<le> 90) \<or> (192 \<le> n \<and> n \<le> 222 \<and> n \<noteq> 215)
         then char_of (n + 32) else c)"

definition py_lower :: "string \<Rightarrow> string" where
  "py_lower s = map py_lower_char s"

text \<open>\<open>s.split(c)\<close> for a separator of one character: never the empty list.\<close>

fun split_on :: "char \<Rightarrow> string \<Rightarrow> string list" where
  "split_on c [] = [[]]"
| "split_on c (x # xs) =
     (if x = c then [] # split_on c xs
      else (case split_on c xs of [] \<Rightarrow> [[x]] | h # t \<Rightarrow> (x # h) # t))"

text \<open>\<open>c.join(parts)\<close> for a separator of one character.\<close>

fun join_with :: "char \<Rightarrow> string list \<Rightarrow> string" where
  "join_with c [] = []"
| "join_with c [p] = p"
| "join_with c (p # q # ps) = p @ c # join_with c (q # ps)"

text \<open>\<open>s.rstrip(c)\<close> for one character: every trailing occurrence goes.\<close>

definition rstrip_char :: "char \<Rightarrow> string \<Rightarrow> string" where
  "rstrip_char c s = rev (dropWhile (\<lambda>x. x = c) (rev s))"

text \<open>
  \<open>s.find(c)\<close> and \<open>s.rfind(c)\<close> for a character that occurs in \<open>s\<close> (the callers
  test \<open>c in s\<close> first, or treat the result \<open>-1\<close> by that test).
\<close>

definition find_char :: "char \<Rightarrow> string \<Rightarrow> nat" where
  "find_char c s = length (takeWhile (\<lambda>x. x \<noteq> c) s)"

definition rfind_char :: "char \<Rightarrow> string \<Rightarrow> nat" where
  "rfind_char c s = length s - 1 - length (takeWhile (\<lambda>x. x \<noteq> c) (rev s))"


section \<open>PDFProcessor: text extraction with several backends\<close>

text \<open>
  A backend is one of the \<open>_extract_with_*\<close> methods: given the path of the PDF file
  it returns the extracted text or raises.  The libraries behind the backends
  (PyMuPDF, PyPDF2, pdf2image with Tesseract) are outside the repository, so a
  backend is a function parameter here.
\<close>

type_synonym backend = "string \<Rightarrow> py_error + string"

text \<open>
  Every \<open>_extract_with_*\<close> method wraps its library calls in
  \<open>try: ... except Exception: log; return ""\<close>.
\<close>

definition guarded :: "backend \<Rightarrow> backend" where
  "guarded lib pdf_path = (case lib pdf_path of Inl e \<Rightarrow> Inr [] | Inr t \<Rightarrow> Inr t)"

text \<open>
  The local variables of \<open>extract_text_from_pdf\<close>, and the names of the backends
  invoked so far (\<open>invoked\<close> is not a variable of the source: it records the calls
  \<open>extract_method(pdf_path)\<close> in the order they are made).
\<close>

record pdf_vars =
  best_text :: string
  best_method :: string
  max_length :: nat
  invoked :: "string list"

text \<open>
  One iteration of \<open>for method_name, extract_method in methods.items()\<close>: the body
  is a \<open>try\<close> whose \<open>except Exception\<close> logs and continues.
\<close>

definition pdf_iteration :: "string \<Rightarrow> string \<times> backend \<Rightarrow> pdf_vars \<Rightarrow> pdf_vars" where
  "pdf_iteration pdf_path m v =
     (let v' = v\<lparr>invoked := invoked v @ [fst m]\<rparr>
      in case snd m pdf_path of
           Inl e \<Rightarrow> v'
         | Inr extracted_text \<Rightarrow>
             (let text_length = length (py_strip extracted_text)
              in if text_length > max_length v'
                 then v'\<lparr>max_length := text_length, best_text := extracted_text,
                         best_method := fst m\<rparr>
                 else v'))"

fun pdf_loop :: "string \<Rightarrow> (string \<times> backend) list \<Rightarrow> pdf_vars \<Rightarrow> pdf_vars" where
  "pdf_loop pdf_path [] v = v"
| "pdf_loop pdf_path (m # ms) v = pdf_loop pdf_path ms (pdf_iteration pdf_path m v)"

definition pdf_run :: "(string \<times> backend) list \<Rightarrow> string \<Rightarrow> pdf_vars" where
  "pdf_run methods pdf_path =
     pdf_loop pdf_path methods
       \<lparr>best_text = [], best_method = [], max_length = 0, invoked = []\<rparr>"

text \<open>
  \<open>methods\<close> is the dictionary of the source as the list of its items in insertion
  order, which is the order \<open>methods.items()\<close> iterates in.
\<close>

definition extract_text_from_pdf :: "(string \<times> backend) list \<Rightarrow> string \<Rightarrow> string \<times> string" where
  "extract_text_from_pdf methods pdf_path =
     (let v = pdf_run methods pdf_path in (best_text v, best_method v))"

text \<open>The dictionary of \<open>Crawler-v02.py\<close>, over the three library calls.\<close>

definition methods_v02 :: "backend \<Rightarrow> backend \<Rightarrow> backend \<Rightarrow> (string \<times> backend) list" where
  "methods_v02 pymupdf pypdf2 ocr =
     [(''pymupdf'', guarded pymupdf), (''pypdf2'', guarded pypdf2), (''ocr'', guarded ocr)]"

text \<open>The dictionary of \<open>Crawler-mlai.py\<close>: the first key is named \<open>pdfminer\<close>.\<close>

definition methods_mlai :: "backend \<Rightarrow> backend \<Rightarrow> backend \<Rightarrow> (string \<times> backend) list" where
  "methods_mlai pymupdf pypdf2 ocr =
     [(''pdfminer'', guarded pymupdf), (''pypdf2'', guarded pypdf2), (''ocr'', guarded ocr)]"

text \<open>
  The length a backend contributes to the comparison: the length of its stripped
  text, and nothing when it raises.
\<close>

definition stripped_length :: "string \<Rightarrow> string \<times> backend \<Rightarrow> nat" where
  "stripped_length pdf_path m =
     (case snd m pdf_path of Inl e \<Rightarrow> 0 | Inr t \<Rightarrow> length (py_strip t))"


section \<open>FileHandler: the category of a URL\<close>

text \<open>
  \<open>pathlib.PurePosixPath(p).name\<close> (CPython 3.11): the path is split at \<open>/\<close>, empty
  components and \<open>.\<close> components are dropped, and the name is the last component
  left, or the empty string.
\<close>

definition path_name :: "string \<Rightarrow> string" where
  "path_name p =
     (case filter (\<lambda>x. x \<noteq> [] \<and> x \<noteq> ''.'') (split_on CHR ''/'' p) of
        [] \<Rightarrow> []
      | x # xs \<Rightarrow> last (x # xs))"

text \<open>
  \<open>PurePosixPath(p).suffix\<close>: with \<open>i = name.rfind('.')\<close>, the suffix is \<open>name[i:]\<close>
  when \<open>0 < i < len(name) - 1\<close> and the empty string otherwise.
\<close>

definition path_suffix :: "string \<Rightarrow> string" where
  "path_suffix p =
     (let name = path_name p
      in if CHR ''.'' \<in> set name
         then (let i = rfind_char CHR ''.'' name
               in if 0 < i \<and> i + 1 < length name then drop i name else [])
         else [])"

text \<open>
  \<open>self.downloadable_extensions\<close> of \<open>Crawler-v02.py\<close> (l.102-114), \<open>Code.py\<close>
  (l.100-112) and \<open>Crawler5.py\<close> (l.107-119), as the list of its items in insertion
  order.
\<close>

definition downloadable_extensions :: "(string \<times> string list) list" where
  "downloadable_extensions =
     [(''document'', [''.pdf'', ''.doc'', ''.docx'', ''.txt'', ''.rtf'', ''.odt'']),
      (''spreadsheet'', [''.xls'', ''.xlsx'', ''.csv'', ''.ods'']),
      (''presentation'', [''.ppt'', ''.pptx'', ''.odp'']),
      (''archive'', [''.zip'', ''.rar'', ''.7z'', ''.tar'', ''.gz'']),
      (''image'', [''.jpg'', ''.jpeg'', ''.png'', ''.gif'', ''.bmp'', ''.svg'']),
      (''audio'', [''.mp3'', ''.wav'', ''.ogg'', ''.m4a'']),
      (''video'', [''.mp4'', ''.avi'', ''.mkv'', ''.mov'']),
      (''code'', [''.py'', ''.js'', ''.html'', ''.css'', ''.java'', ''.cpp'', ''.h'']),
      (''data'', [''.json'', ''.xml'', ''.yaml'', ''.sql'']),
      (''ebook'', [''.epub'', ''.mobi'', ''.azw'']),
      (''other'', [])]"

text \<open>
  The loop \<open>for category, extensions in ...items(): if ext in extensions: return category\<close>.
\<close>

fun first_category :: "(string \<times> string list) list \<Rightarrow> string \<Rightarrow> string option" where
  "first_category [] ext = None"
| "first_category ((category, extensions) # rest) ext =
     (if ext \<in> set extensions then Some category else first_category rest ext)"

text \<open>The body of \<open>get_file_category\<close> once \<open>ext\<close> is computed.\<close>

definition category_of_ext :: "string \<Rightarrow> string option" where
  "category_of_ext ext =
     (case first_category downloadable_extensions ext of
        Some category \<Rightarrow> Some category
      | None \<Rightarrow> if ext \<noteq> [] then Some ''other'' else None)"

text \<open>
  \<open>self.downloadable_extensions\<close> of \<open>crawler4.py\<close> (l.33-42): eight entries, without
  the keys \<open>code\<close>, \<open>data\<close> and \<open>ebook\<close>.
\<close>

definition downloadable_extensions_crawler4 :: "(string \<times> string list) list" where
  "downloadable_extensions_crawler4 =
     [(''document'', [''.pdf'', ''.doc'', ''.docx'', ''.txt'', ''.rtf'', ''.odt'']),
      (''spreadsheet'', [''.xls'', ''.xlsx'', ''.csv'', ''.ods'']),
      (''presentation'', [''.ppt'', ''.pptx'', ''.odp'']),
      (''archive'', [''.zip'', ''.rar'', ''.7z'', ''.tar'', ''.gz'']),
      (''image'', [''.jpg'', ''.jpeg'', ''.png'', ''.gif'', ''.bmp'', ''.svg'']),
      (''audio'', [''.mp3'', ''.wav'', ''.ogg'', ''.m4a'']),
      (''video'', [''.mp4'', ''.avi'', ''.mkv'', ''.mov'']),
      (''other'', [])]"

text \<open>
  \<open>get_file_category\<close> of \<open>Code.py\<close> (l.114-122) and \<open>Crawler5.py\<close> (l.121-129) and
  \<open>_get_file_category\<close> of \<open>crawler4.py\<close> (l.90-98).  The three bodies are the same
  text: \<open>ext = Path(url).suffix.lower()\<close>, the suffix of the whole URL string, then
  the loop over \<open>self.downloadable_extensions\<close>, then \<open>'other'\<close> for a non-empty
  \<open>ext\<close>.  The dictionary is an attribute of the object, here the argument \<open>exts\<close>:
  it is \<^const>\<open>downloadable_extensions\<close> in \<open>Code.py\<close> and \<open>Crawler5.py\<close> and
  \<^const>\<open>downloadable_extensions_crawler4\<close> in \<open>crawler4.py\<close>.
\<close>

definition get_file_category_whole_url ::
  "(string \<times> string list) list \<Rightarrow> string \<Rightarrow> string option" where
  "get_file_category_whole_url exts url =
     (let ext = py_lower (path_suffix url)
      in case first_category exts ext of
           Some category \<Rightarrow> Some category
         | None \<Rightarrow> if ext \<noteq> [] then Some ''other'' else None)"

text \<open>\<open>is_downloadable_file\<close> (\<open>_is_downloadable_file\<close> in \<open>crawler4.py\<close>, l.100-102).\<close>

definition is_downloadable_file_whole_url ::
  "(string \<times> string list) list \<Rightarrow> string \<Rightarrow> bool" where
  "is_downloadable_file_whole_url exts url = (get_file_category_whole_url exts url \<noteq> None)"

text \<open>
  The branch \<open>_process_url\<close> takes in \<open>Code.py\<close> (l.327-340) and \<open>crawler4.py\<close>
  (l.274-287): the download pipeline with a category, or \<open>_fetch_url\<close>.  When
  \<open>is_downloadable_file\<close> holds the category is never \<open>None\<close>, so the inner
  \<open>if category\<close> always succeeds.  (\<open>Crawler5.py\<close> stops after the helper classes and
  has no \<open>_process_url\<close>.)
\<close>

datatype action = DownloadFile string | CrawlPage

definition route_whole_url :: "(string \<times> string list) list \<Rightarrow> string \<Rightarrow> action" where
  "route_whole_url exts url =
     (if is_downloadable_file_whole_url exts url
      then (case get_file_category_whole_url exts url of
              Some category \<Rightarrow> DownloadFile category
            | None \<Rightarrow> CrawlPage)
      else CrawlPage)"

section \<open>urllib.parse: splitting, joining and rebuilding URLs\<close>

text \<open>
  The source normalises and classifies URLs with \<open>urlparse\<close> and \<open>urljoin\<close> of the
  Python standard library.  They are modelled after \<open>urllib/parse.py\<close> of
  CPython 3.11, line by line.  Two checks of \<open>urlsplit\<close> are not computed here:
  \<^item> \<open>_check_bracketed_host\<close>, which validates an IPv6 or IPvFuture literal between
    \<open>[\<close> and \<open>]\<close> with the \<open>ipaddress\<close> module and raises \<open>ValueError\<close>: it is the
    parameter \<open>host_ok\<close> of every function below;
  \<^item> \<open>_checknetloc\<close>, which raises only for characters whose NFKC normal form
    contains one of \<open>/?#@:\<close>: no character below U+0100 has such a form.
\<close>

definition uses_relative :: "string list" where
  "uses_relative =
     ['''', ''ftp'', ''http'', ''gopher'', ''nntp'', ''imap'', ''wais'', ''file'', ''https'',
      ''shttp'', ''mms'', ''prospero'', ''rtsp'', ''rtsps'', ''rtspu'', ''sftp'', ''svn'',
      ''svn+ssh'', ''ws'', ''wss'']"

definition uses_netloc :: "string list" where
  "uses_netloc =
     ['''', ''ftp'', ''http'', ''gopher'', ''nntp'', ''telnet'', ''imap'', ''wais'', ''file'',
      ''mms'', ''https'', ''shttp'', ''snews'', ''prospero'', ''rtsp'', ''rtsps'', ''rtspu'',
      ''rsync'', ''svn'', ''svn+ssh'', ''sftp'', ''nfs'', ''git'', ''git+ssh'', ''ws'', ''wss'']"

definition uses_params :: "string list" where
  "uses_params =
     ['''', ''ftp'', ''hdl'', ''prospero'', ''http'', ''imap'', ''https'', ''shttp'', ''rtsp'',
      ''rtsps'', ''rtspu'', ''sip'', ''sips'', ''mms'', ''sftp'', ''tel'']"

definition scheme_chars :: string where
  "scheme_chars = ''abcdefghijklmnopqrstuvwxyzABCDEFGHIJKLMNOPQRSTUVWXYZ0123456789+-.''"

text \<open>\<open>_WHATWG_C0_CONTROL_OR_SPACE\<close>: the code points 0 to 32.\<close>

definition c0_control_or_space :: "char \<Rightarrow> bool" where
  "c0_control_or_space c = ((of_char c :: nat) \<le> 32)"

text \<open>\<open>_UNSAFE_URL_BYTES_TO_REMOVE\<close>: tab, carriage return, line feed.\<close>

definition unsafe_url_byte :: "char \<Rightarrow> bool" where
  "unsafe_url_byte c = ((of_char c :: nat) = 9 \<or> (of_char c :: nat) = 13 \<or> (of_char c :: nat) = 10)"

text \<open>\<open>c.isascii() and c.isalpha()\<close>.\<close>

definition ascii_alpha :: "char \<Rightarrow> bool" where
  "ascii_alpha c =
     (let n = (of_char c :: nat) in (65 \<le> n \<and> n \<le> 90) \<or> (97 \<le> n \<and> n \<le> 122))"

text \<open>\<open>s.partition(c)\<close>: the text before the first \<open>c\<close>, and the text after it.\<close>

definition before_char :: "char \<Rightarrow> string \<Rightarrow> string" where
  "before_char c s = takeWhile (\<lambda>x. x \<noteq> c) s"

definition after_char :: "char \<Rightarrow> string \<Rightarrow> string" where
  "after_char c s = drop 1 (dropWhile (\<lambda>x. x \<noteq> c) s)"

text \<open>
  \<open>_splitnetloc(url, 2)\<close> on the text after the two slashes: the network location
  ends at the first of \<open>/\<close>, \<open>?\<close> and \<open>#\<close>.
\<close>

definition netloc_delim :: "char \<Rightarrow> bool" where
  "netloc_delim c = (c = CHR ''/'' \<or> c = CHR ''?'' \<or> c = CHR ''#'')"

definition splitnetloc :: "string \<Rightarrow> string \<times> string" where
  "splitnetloc rest = (takeWhile (\<lambda>c. \<not> netloc_delim c) rest, dropWhile (\<lambda>c. \<not> netloc_delim c) rest)"

text \<open>The scheme a URL starts with, if it has one, and the text after its colon.\<close>

definition split_scheme :: "string \<Rightarrow> string \<Rightarrow> string \<times> string" where
  "split_scheme dflt url =
     (if CHR '':'' \<in> set url
      then (let i = find_char CHR '':'' url
            in if i > 0 \<and> ascii_alpha (hd url) \<and> (\<forall>c\<in>set (take i url). c \<in> set scheme_chars)
               then (py_lower (take i url), drop (i + 1) url)
               else (dflt, url))
      else (dflt, url))"

text \<open>The two bracket tests of \<open>urlsplit\<close> that raise \<open>ValueError\<close>.\<close>

definition netloc_raises :: "(string \<Rightarrow> bool) \<Rightarrow> string \<Rightarrow> bool" where
  "netloc_raises host_ok netloc =
     (let lb = CHR ''['' \<in> set netloc; rb = CHR '']'' \<in> set netloc
      in (lb \<and> \<not> rb) \<or> (rb \<and> \<not> lb) \<or>
         (lb \<and> rb \<and> \<not> host_ok (before_char CHR '']'' (after_char CHR ''['' netloc))))"

text \<open>\<open>urlsplit(url, scheme)\<close>: scheme, netloc, path, query, fragment.\<close>

definition urlsplit ::
  "(string \<Rightarrow> bool) \<Rightarrow> string \<Rightarrow> string \<Rightarrow> py_error + (string \<times> string \<times> string \<times> string \<times> string)"
where
  "urlsplit host_ok url0 scheme0 =
     (let url1 = filter (\<lambda>c. \<not> unsafe_url_byte c) (dropWhile c0_control_or_space url0);
          scheme1 = filter (\<lambda>c. \<not> unsafe_url_byte c)
                      (rev (dropWhile c0_control_or_space
                         (rev (dropWhile c0_control_or_space scheme0))));
          (scheme, url2) = split_scheme scheme1 url1;
          (netloc, url3) = (if take 2 url2 = ''//'' then splitnetloc (drop 2 url2) else ([], url2))
      in if netloc_raises host_ok netloc then Inl ValueError
         else (let (url4, fragment) =
                     (if CHR ''#'' \<in> set url3
                      then (before_char CHR ''#'' url3, after_char CHR ''#'' url3)
                      else (url3, []));
                   (url5, query) =
                     (if CHR ''?'' \<in> set url4
                      then (before_char CHR ''?'' url4, after_char CHR ''?'' url4)
                      else (url4, []))
               in Inr (scheme, netloc, url5, query, fragment)))"

text \<open>
  \<open>_splitparams(url)\<close>, called only when \<open>;\<close> occurs in \<open>url\<close>: the parameters start
  at the first \<open>;\<close> of the last path segment.
\<close>

definition splitparams :: "string \<Rightarrow> string \<times> string" where
  "splitparams url =
     (if CHR ''/'' \<in> set url
      then (let r = rfind_char CHR ''/'' url
            in if CHR '';'' \<in> set (drop r url)
               then (let i = r + find_char CHR '';'' (drop r url)
                     in (take i url, drop (i + 1) url))
               else (url, []))
      else (let i = find_char CHR '';'' url in (take i url, drop (i + 1) url)))"

record parse_result =
  p_scheme :: string
  p_netloc :: string
  p_path :: string
  p_params :: string
  p_query :: string
  p_fragment :: string

definition urlparse :: "(string \<Rightarrow> bool) \<Rightarrow> string \<Rightarrow> string \<Rightarrow> py_error + parse_result" where
  "urlparse host_ok url0 scheme0 =
     (case urlsplit host_ok url0 scheme0 of
        Inl e \<Rightarrow> Inl e
      | Inr (scheme, netloc, url, query, fragment) \<Rightarrow>
          (let (url', params) =
                 (if scheme \<in> set uses_params \<and> CHR '';'' \<in> set url
                  then splitparams url else (url, []))
           in Inr \<lparr>p_scheme = scheme, p_netloc = netloc, p_path = url', p_params = params,
                    p_query = query, p_fragment = fragment\<rparr>))"

definition urlunsplit :: "string \<Rightarrow> string \<Rightarrow> string \<Rightarrow> string \<Rightarrow> string \<Rightarrow> string" where
  "urlunsplit scheme netloc url0 query fragment =
     (let url1 = (if netloc \<noteq> [] \<or> (scheme \<noteq> [] \<and> scheme \<in> set uses_netloc) \<or> take 2 url0 = ''//''
                  then ''//'' @ netloc @
                         (if url0 \<noteq> [] \<and> take 1 url0 \<noteq> ''/'' then CHR ''/'' # url0 else url0)
                  else url0);
          url2 = (if scheme \<noteq> [] then scheme @ '':'' @ url1 else url1);
          url3 = (if query \<noteq> [] then url2 @ ''?'' @ query else url2)
      in if fragment \<noteq> [] then url3 @ ''#'' @ fragment else url3)"

definition urlunparse :: "parse_result \<Rightarrow> string" where
  "urlunparse p =
     urlunsplit (p_scheme p) (p_netloc p)
       (if p_params p \<noteq> [] then p_path p @ '';'' @ p_params p else p_path p)
       (p_query p) (p_fragment p)"

text \<open>
  \<open>segments[1:-1] = filter(None, segments[1:-1])\<close>: the empty segments between the
  first and the last one go.
\<close>

definition drop_inner_empty :: "string list \<Rightarrow> string list" where
  "drop_inner_empty segments =
     (if length segments \<ge> 2
      then hd segments # filter (\<lambda>s. s \<noteq> []) (butlast (tl segments)) @ [last segments]
      else segments)"

text \<open>
  The loop over the segments: \<open>..\<close> pops (an \<open>IndexError\<close> on the empty list is
  caught and ignored), \<open>.\<close> is skipped, any other segment is appended.
\<close>

fun resolve_segments :: "string list \<Rightarrow> string list \<Rightarrow> string list" where
  "resolve_segments [] resolved_path = resolved_path"
| "resolve_segments (seg # segs) resolved_path =
     resolve_segments segs
       (if seg = ''..'' then butlast resolved_path
        else if seg = ''.'' then resolved_path
        else resolved_path @ [seg])"

definition urljoin :: "(string \<Rightarrow> bool) \<Rightarrow> string \<Rightarrow> string \<Rightarrow> py_error + string" where
  "urljoin host_ok base url =
     (if base = [] then Inr url
      else if url = [] then Inr base
      else case urlparse host_ok base [] of
        Inl e \<Rightarrow> Inl e
      | Inr b \<Rightarrow>
         (case urlparse host_ok url (p_scheme b) of
            Inl e \<Rightarrow> Inl e
          | Inr u \<Rightarrow>
             if p_scheme u \<noteq> p_scheme b \<or> p_scheme u \<notin> set uses_relative then Inr url
             else if p_scheme u \<in> set uses_netloc \<and> p_netloc u \<noteq> [] then Inr (urlunparse u)
             else
               (let netloc = (if p_scheme u \<in> set uses_netloc then p_netloc b else p_netloc u)
                in if p_path u = [] \<and> p_params u = []
                   then Inr (urlunparse
                          (u\<lparr>p_netloc := netloc, p_path := p_path b, p_params := p_params b,
                              p_query := (if p_query u = [] then p_query b else p_query u)\<rparr>))
                   else
                     (let base_parts = split_on CHR ''/'' (p_path b);
                          base_parts' = (if last base_parts \<noteq> [] then butlast base_parts
                                         else base_parts);
                          segments = (if take 1 (p_path u) = ''/''
                                      then split_on CHR ''/'' (p_path u)
                                      else drop_inner_empty
                                             (base_parts' @ split_on CHR ''/'' (p_path u)));
                          resolved_path = resolve_segments segments [];
                          resolved_path' = (if last segments = ''.'' \<or> last segments = ''..''
                                            then resolved_path @ [[]] else resolved_path);
                          joined = join_with CHR ''/'' resolved_path'
                      in Inr (urlunparse
                            (u\<lparr>p_netloc := netloc,
                               p_path := (if joined = [] then ''/'' else joined)\<rparr>))))))"


section \<open>URL normalisation\<close>

text \<open>
  \<open>EnhancedCrawler._normalize_url\<close> (\<open>Crawler-v02.py\<close>, and the same in \<open>Code.py\<close> and
  \<open>crawler4.py\<close>): join with the base URL, parse, and rebuild from scheme, netloc
  and path; \<open>rstrip('/')\<close> then works on the whole rebuilt string.
\<close>

definition normalize_url_v02 :: "(string \<Rightarrow> bool) \<Rightarrow> string \<Rightarrow> string \<Rightarrow> py_error + string" where
  "normalize_url_v02 host_ok base_url url =
     (case urljoin host_ok base_url url of
        Inl e \<Rightarrow> Inl e
      | Inr joined \<Rightarrow>
         (case urlparse host_ok joined [] of
            Inl e \<Rightarrow> Inl e
          | Inr parsed \<Rightarrow>
              Inr (rstrip_char CHR ''/''
                     (p_scheme parsed @ ''://'' @ p_netloc parsed @ p_path parsed))))"

text \<open>
  \<open>Crawler.normalize_url\<close> (\<open>crawler.py\<close>): no join, and \<open>rstrip('/')\<close> on the path only.
\<close>

definition normalize_url_crawler :: "(string \<Rightarrow> bool) \<Rightarrow> string \<Rightarrow> py_error + string" where
  "normalize_url_crawler host_ok url =
     (case urlparse host_ok url [] of
        Inl e \<Rightarrow> Inl e
      | Inr parsed \<Rightarrow>
          Inr (p_scheme parsed @ ''://'' @ p_netloc parsed @ rstrip_char CHR ''/'' (p_path parsed)))"

text \<open>
  The canonical form in the words of the specification: scheme, host and path,
  with the host lowercased, trailing slashes of the path removed, the fragment
  removed and the query kept.
\<close>

definition spec_canonical_url :: "string \<Rightarrow> string \<Rightarrow> string \<Rightarrow> string \<Rightarrow> string" where
  "spec_canonical_url scheme host path query =
     scheme @ ''://'' @ py_lower host @ rstrip_char CHR ''/'' path @
       (if query \<noteq> [] then ''?'' @ query else [])"


section \<open>Absolute URLs, for stating what normalisation returns\<close>

text \<open>
  An absolute URL is written \<open>s://n p t\<close>: a scheme \<open>s\<close> (a letter, then scheme
  characters), a non-empty network location \<open>n\<close> without \<open>/\<close>, \<open>?\<close>, \<open>#\<close> and without
  brackets, a path \<open>p\<close> that is empty or starts with \<open>/\<close> and has no \<open>?\<close>, \<open>#\<close> or \<open>;\<close>,
  and a tail \<open>t\<close> that is empty or starts with \<open>?\<close> or \<open>#\<close> (the query and the
  fragment).  No part holds a tab, a carriage return or a line feed.
\<close>

definition absolute_url_parts :: "string \<Rightarrow> string \<Rightarrow> string \<Rightarrow> string \<Rightarrow> bool" where
  "absolute_url_parts s n p t =
     (s \<noteq> [] \<and> ascii_alpha (hd s) \<and> (\<forall>c\<in>set s. c \<in> set scheme_chars) \<and>
      n \<noteq> [] \<and> (\<forall>c\<in>set n. \<not> netloc_delim c \<and> c \<noteq> CHR ''['' \<and> c \<noteq> CHR '']'') \<and>
      (p = [] \<or> hd p = CHR ''/'') \<and>
      (\<forall>c\<in>set p. c \<noteq> CHR ''?'' \<and> c \<noteq> CHR ''#'' \<and> c \<noteq> CHR '';'') \<and>
      (t = [] \<or> hd t = CHR ''?'' \<or> hd t = CHR ''#'') \<and>
      (\<forall>c\<in>set (n @ p @ t). \<not> unsafe_url_byte c))"

text \<open>The fragment and the query that \<open>urlsplit\<close> reads off such a tail.\<close>

definition tail_fragment :: "string \<Rightarrow> string" where
  "tail_fragment t = (if CHR ''#'' \<in> set t then after_char CHR ''#'' t else [])"

definition tail_query :: "string \<Rightarrow> string" where
  "tail_query t =
     (let t' = (if CHR ''#'' \<in> set t then before_char CHR ''#'' t else t)
      in if CHR ''?'' \<in> set t' then after_char CHR ''?'' t' else [])"


section \<open>FileHandler of Crawler-v02.py: the category from the path of the URL\<close>

text \<open>
  \<open>get_file_category\<close> of \<open>Crawler-v02.py\<close>:
  \<open>ext = Path(urlparse(url).path).suffix.lower()\<close>; \<open>urlparse\<close> may raise.
\<close>

definition get_file_category :: "(string \<Rightarrow> bool) \<Rightarrow> string \<Rightarrow> py_error + string option" where
  "get_file_category host_ok url =
     (case urlparse host_ok url [] of
        Inl e \<Rightarrow> Inl e
      | Inr parsed \<Rightarrow> Inr (category_of_ext (py_lower (path_suffix (p_path parsed)))))"

definition is_downloadable_file :: "(string \<Rightarrow> bool) \<Rightarrow> string \<Rightarrow> py_error + bool" where
  "is_downloadable_file host_ok url =
     (case get_file_category host_ok url of
        Inl e \<Rightarrow> Inl e
      | Inr category \<Rightarrow> Inr (category \<noteq> None))"

text \<open>
  The branch \<open>_process_url\<close> of \<open>Crawler-v02.py\<close> takes; when the download branch
  is entered and \<open>category\<close> is \<open>None\<close> the method falls through and returns \<open>None\<close>
  without fetching, which is \<open>Skip\<close> here.
\<close>

datatype route = Download string | Fetch | Skip

definition route_url :: "(string \<Rightarrow> bool) \<Rightarrow> string \<Rightarrow> py_error + route" where
  "route_url host_ok url =
     (case is_downloadable_file host_ok url of
        Inl e \<Rightarrow> Inl e
      | Inr True \<Rightarrow>
          (case get_file_category host_ok url of
             Inl e \<Rightarrow> Inl e
           | Inr (Some category) \<Rightarrow> Inr (Download category)
           | Inr None \<Rightarrow> Inr Skip)
      | Inr False \<Rightarrow> Inr Fetch)"


section \<open>ProxyManager\<close>

text \<open>
  A proxy is the dictionary \<open>{'http': ..., 'https': ...}\<close>, to which \<open>_test_proxy\<close>
  adds the key \<open>speed\<close> when the probe answers 200.  The direct connection has
  \<open>None\<close> under both keys.  A speed is a difference of two \<open>time.time()\<close> values;
  only the order of speeds is used, so it is a real number here.
\<close>

record proxy =
  px_http :: "string option"
  px_https :: "string option"
  px_speed :: "real option"

definition direct :: proxy where
  "direct = \<lparr>px_http = None, px_https = None, px_speed = None\<rparr>"

text \<open>
  The fields of \<open>ProxyManager\<close>.  Times (\<open>datetime.now()\<close>) are counted in
  microseconds, the resolution of \<open>datetime\<close>.
\<close>

record proxy_manager =
  proxies :: "proxy list"
  current_index :: nat
  last_update :: int
  total_used :: nat
  successful_requests :: nat
  failed_requests :: nat
  rotations :: nat

definition update_interval :: int where
  "update_interval = 3600 * 1000000"

text \<open>
  \<open>str.splitlines()\<close>, for the line boundaries a \<^typ>\<open>char\<close> can hold: LF, CR (with a
  following LF), VT, FF, FS, GS, RS and NEL.  A final line break opens no new line.
\<close>

definition line_boundary :: "char \<Rightarrow> bool" where
  "line_boundary c =
     (let n = (of_char c :: nat)
      in (10 \<le> n \<and> n \<le> 13) \<or> (28 \<le> n \<and> n \<le> 30) \<or> n = 133)"

fun splitlines_from :: "string \<Rightarrow> string \<Rightarrow> string list" where
  "splitlines_from cur [] = (if cur = [] then [] else [cur])"
| "splitlines_from cur (c # cs) =
     (if (of_char c :: nat) = 13
      then (case cs of
              [] \<Rightarrow> [cur]
            | d # ds \<Rightarrow> if (of_char d :: nat) = 10 then cur # splitlines_from [] ds
                       else cur # splitlines_from [] cs)
      else if line_boundary c then cur # splitlines_from [] cs
      else splitlines_from (cur @ [c]) cs)"

definition splitlines :: "string \<Rightarrow> string list" where
  "splitlines s = splitlines_from [] s"

text \<open>
  The body of the loop of \<open>_load_proxies\<close> for one line: an empty line is skipped,
  a line of four fields \<open>ip:port:user:pass\<close> gives a proxy, any other line is
  logged and skipped.
\<close>

definition proxy_of_line :: "string \<Rightarrow> proxy option" where
  "proxy_of_line line0 =
     (let line = py_strip line0
      in if line = [] then None
         else (case split_on CHR '':'' line of
                 [ip, port, username, password] \<Rightarrow>
                   (let proxy_url = ''http://'' @ username @ '':'' @ password @ ''@'' @ ip @ '':'' @ port
                    in Some \<lparr>px_http = Some proxy_url, px_https = Some proxy_url, px_speed = None\<rparr>)
               | _ \<Rightarrow> None))"

text \<open>
  \<open>_load_proxies\<close>.  The file is \<open>None\<close> when \<open>os.path.exists\<close> is false,
  \<open>Some (Inl e)\<close> when opening or reading it raises, and \<open>Some (Inr text)\<close> with its
  content otherwise.
\<close>

definition load_proxies :: "(py_error + string) option \<Rightarrow> proxy_manager \<Rightarrow> proxy_manager" where
  "load_proxies file m =
     (case file of
        Some (Inl e) \<Rightarrow> m\<lparr>proxies := [direct]\<rparr>
      | Some (Inr text) \<Rightarrow>
          (let loaded_proxies = List.map_filter proxy_of_line (splitlines text)
           in if loaded_proxies = [] then m\<lparr>proxies := [direct]\<rparr>
              else m\<lparr>proxies := loaded_proxies\<rparr>)
      | None \<Rightarrow> if proxies m = [] then m\<lparr>proxies := [direct]\<rparr> else m)"

text \<open>\<open>ProxyManager.__init__\<close>, at the time \<open>now\<close>.\<close>

definition new_proxy_manager :: "(py_error + string) option \<Rightarrow> int \<Rightarrow> proxy_manager" where
  "new_proxy_manager file now =
     load_proxies file
       \<lparr>proxies = [], current_index = 0, last_update = now, total_used = 0,
        successful_requests = 0, failed_requests = 0, rotations = 0\<rparr>"

text \<open>
  \<open>_test_all_proxies\<close>: the probe of a proxy (\<open>_test_proxy\<close>, a request to the health
  endpoint) gives its latency when the answer is 200 and \<open>None\<close> otherwise; the
  working proxies are collected in the order of the list.
\<close>

definition test_all_proxies :: "(proxy \<Rightarrow> real option) \<Rightarrow> proxy_manager \<Rightarrow> proxy list" where
  "test_all_proxies probe m =
     List.map_filter
       (\<lambda>p. case probe p of None \<Rightarrow> None | Some t \<Rightarrow> Some (p\<lparr>px_speed := Some t\<rparr>))
       (proxies m)"

text \<open>The sort key \<open>x.get('speed', float('inf'))\<close>: a missing speed sorts last.\<close>

definition speed_key :: "proxy \<Rightarrow> bool \<times> real" where
  "speed_key p = (case px_speed p of None \<Rightarrow> (True, 0) | Some t \<Rightarrow> (False, t))"

definition update_proxies :: "(proxy \<Rightarrow> real option) \<Rightarrow> int \<Rightarrow> proxy_manager \<Rightarrow> proxy_manager" where
  "update_proxies probe now m =
     (let working_proxies = test_all_proxies probe m
      in (if working_proxies \<noteq> [] then m\<lparr>proxies := sort_key speed_key working_proxies\<rparr>
          else m\<lparr>proxies := [direct]\<rparr>)
         \<lparr>last_update := now\<rparr>)"

text \<open>
  \<open>get_proxy\<close> at the time \<open>now\<close>.  \<open>self.proxies[self.current_index]\<close> raises
  \<open>IndexError\<close> when the index is not below the length of the list; the state is
  then the one reached before the indexing.
\<close>

definition get_proxy ::
  "(proxy \<Rightarrow> real option) \<Rightarrow> int \<Rightarrow> proxy_manager \<Rightarrow> (py_error + proxy) \<times> proxy_manager"
where
  "get_proxy probe now m0 =
     (let m1 = m0\<lparr>total_used := total_used m0 + 1\<rparr>;
          m2 = (if now - last_update m1 > update_interval then update_proxies probe now m1 else m1)
      in if proxies m2 = [] then (Inr direct, m2)
         else if current_index m2 < length (proxies m2)
         then (Inr (proxies m2 ! current_index m2),
               m2\<lparr>current_index := (current_index m2 + 1) mod length (proxies m2),
                   rotations := rotations m2 + 1\<rparr>)
         else (Inl IndexError, m2))"

definition record_result :: "bool \<Rightarrow> proxy_manager \<Rightarrow> proxy_manager" where
  "record_result success m =
     (if success then m\<lparr>successful_requests := successful_requests m + 1\<rparr>
      else m\<lparr>failed_requests := failed_requests m + 1\<rparr>)"


section \<open>EnhancedCrawler: configuration, state and requests\<close>

text \<open>The constructor arguments the crawl depends on.\<close>

record config =
  base_url :: string
  max_pages :: int
  concurrent_requests :: int
  request_delay :: real
  max_retries :: int

text \<open>
  What a response is read for: its status, its \<open>content-type\<close> header (the empty
  string when absent) and the result of \<open>await response.text()\<close>.
\<close>

record response =
  r_status :: nat
  r_content_type :: string
  r_text :: "py_error + string"

text \<open>
  The world outside the crawler.  \<open>e_net url k\<close> is the outcome of the request sent
  for \<open>url\<close> when \<open>k\<close> requests have been sent before it: an exception raised by
  \<open>get_proxy\<close> or by the HTTP session (transport error, timeout), or a response.
  \<open>e_md5\<close> is \<open>hashlib.md5(...).hexdigest()\<close>, \<open>e_soup\<close> is the text BeautifulSoup
  extracts from a page (it may raise), \<open>e_anchors\<close> gives the \<open>href\<close> values of the
  anchors of a page in document order, \<open>e_write_ok\<close> tells whether storing the
  download of a URL succeeds, and \<open>e_host_ok\<close> is the bracketed-host check of
  \<open>urlsplit\<close>.
\<close>

record env =
  e_net :: "string \<Rightarrow> nat \<Rightarrow> py_error + response"
  e_md5 :: "string \<Rightarrow> string"
  e_soup :: "string \<Rightarrow> py_error + string"
  e_anchors :: "string \<Rightarrow> string list"
  e_write_ok :: "string \<Rightarrow> bool"
  e_host_ok :: "string \<Rightarrow> bool"

text \<open>
  The state a crawl changes, apart from the queue and \<open>seen_urls\<close>, which the
  loop of \<open>crawl\<close> owns.  The Python sets are lists without duplicates (nothing
  iterates over them but the final report).  \<open>requests\<close> and \<open>slept\<close> are not
  fields of the source: they record every request sent and every
  \<open>asyncio.sleep\<close>, in order.  \<open>text_files\<close> holds each \<open>(url, content)\<close> that
  \<open>_save_data\<close> writes (to a path made of the MD5 of \<open>url\<close>), \<open>downloads\<close> each
  \<open>(category, url)\<close> stored by \<open>_download_file\<close>.
\<close>

record crawler =
  failed_urls :: "string list"
  content_hashes :: "string list"
  pages_processed :: nat
  files_downloaded :: nat
  errors :: nat
  proxy_successes :: nat
  proxy_failures :: nat
  requests :: "string list"
  slept :: "real list"
  text_files :: "(string \<times> string) list"
  downloads :: "(string \<times> string) list"

text \<open>\<open>s.add(x)\<close> on a set kept as a list without duplicates.\<close>

definition set_add :: "'a \<Rightarrow> 'a list \<Rightarrow> 'a list" where
  "set_add x xs = (if x \<in> set xs then xs else xs @ [x])"

text \<open>
  An attempt fails when the request raises or \<open>raise_for_status\<close> raises, which it
  does for every status from 400 on, 404 included.
\<close>

definition attempt_fails :: "py_error + response \<Rightarrow> bool" where
  "attempt_fails outcome = (case outcome of Inl e \<Rightarrow> True | Inr resp \<Rightarrow> r_status resp \<ge> 400)"

text \<open>
  The loop \<open>for attempt in range(self.max_retries)\<close> of \<open>_handle_request\<close>, from
  \<open>attempt\<close> on with \<open>left\<close> iterations to go.  A response ends the loop; a failure
  is recorded, on the last attempt the URL joins \<open>failed_urls\<close> and \<open>errors\<close>
  grows, and the loop sleeps \<open>request_delay * (attempt + 1)\<close> after every failure.
\<close>

fun handle_loop :: "config \<Rightarrow> env \<Rightarrow> string \<Rightarrow> nat \<Rightarrow> nat \<Rightarrow> crawler \<Rightarrow> response option \<times> crawler" where
  "handle_loop cfg ev url attempt 0 st = (None, st)"
| "handle_loop cfg ev url attempt (Suc left) st =
     (let outcome = e_net ev url (length (requests st));
          st1 = st\<lparr>requests := requests st @ [url]\<rparr>
      in if attempt_fails outcome
         then (let st2 = st1\<lparr>proxy_failures := proxy_failures st1 + 1\<rparr>;
                   st3 = (if int attempt = max_retries cfg - 1
                          then st2\<lparr>failed_urls := set_add url (failed_urls st2),
                                   errors := errors st2 + 1\<rparr>
                          else st2);
                   st4 = st3\<lparr>slept := slept st3 @ [request_delay cfg * real (attempt + 1)]\<rparr>
               in handle_loop cfg ev url (attempt + 1) left st4)
         else (case outcome of
                 Inr resp \<Rightarrow> (Some resp, st1\<lparr>proxy_successes := proxy_successes st1 + 1\<rparr>)
               | Inl e \<Rightarrow> (None, st1)))"

definition handle_request :: "config \<Rightarrow> env \<Rightarrow> string \<Rightarrow> crawler \<Rightarrow> response option \<times> crawler" where
  "handle_request cfg ev url st = handle_loop cfg ev url 0 (nat (max_retries cfg)) st"


section \<open>EnhancedCrawler: pages, links and the crawl loop\<close>

text \<open>\<open>sub in s\<close> for strings.\<close>

fun py_in :: "string \<Rightarrow> string \<Rightarrow> bool" where
  "py_in sub [] = (sub = [])"
| "py_in sub (c # cs) = (take (length sub) (c # cs) = sub \<or> py_in sub cs)"

text \<open>
  The three patterns of \<open>_is_valid_url\<close> under \<open>re.search\<close>.  \<open>$\<close> matches at the end
  of the string and before a line feed that ends the string; \<open>.\<close> matches every
  character but the line feed.
\<close>

definition re_end :: "string \<Rightarrow> string \<Rightarrow> bool" where
  "re_end suffix s = (suffix = drop (length s - length suffix) s \<or>
                      suffix @ [char_of (10::nat)] = drop (length s - Suc (length suffix)) s)"

definition excluded_word :: "string \<Rightarrow> bool" where
  "excluded_word s =
     (py_in ''login'' s \<or> py_in ''logout'' s \<or> py_in ''signin'' s \<or> py_in ''signout'' s \<or>
      py_in ''auth'' s)"

definition excluded_fragment :: "string \<Rightarrow> bool" where
  "excluded_fragment s =
     (CHR ''#'' \<in> set s \<and>
      (let rest = rev (takeWhile (\<lambda>c. c \<noteq> CHR ''#'') (rev s))
       in char_of (10::nat) \<notin> set (butlast rest)))"

definition excluded_suffix :: "string \<Rightarrow> bool" where
  "excluded_suffix s =
     (re_end ''.css'' s \<or> re_end ''.js'' s \<or> re_end ''.json'' s \<or> re_end ''.xml'' s)"

text \<open>\<open>_is_valid_url\<close>; \<open>domain\<close> is \<open>self.domain\<close>.\<close>

definition is_valid_url :: "(string \<Rightarrow> bool) \<Rightarrow> string \<Rightarrow> string \<Rightarrow> py_error + bool" where
  "is_valid_url host_ok domain url =
     (if url = [] then Inr False
      else case urlparse host_ok url [] of
        Inl e \<Rightarrow> Inl e
      | Inr parsed \<Rightarrow>
          if p_netloc parsed \<noteq> [] \<and> p_netloc parsed \<noteq> domain then Inr False
          else Inr (\<not> (excluded_word (py_lower url) \<or> excluded_fragment (py_lower url) \<or>
                        excluded_suffix (py_lower url))))"

text \<open>
  The loop of \<open>_extract_links\<close> over the anchors; an exception of \<open>_normalize_url\<close>
  or \<open>_is_valid_url\<close> leaves the method.
\<close>

fun collect_links :: "(string \<Rightarrow> bool) \<Rightarrow> string \<Rightarrow> string \<Rightarrow> string list \<Rightarrow> string list \<Rightarrow> py_error + string list" where
  "collect_links host_ok base domain [] links = Inr links"
| "collect_links host_ok base domain (href # hrefs) links =
     (case normalize_url_v02 host_ok base href of
        Inl e \<Rightarrow> Inl e
      | Inr url \<Rightarrow>
          (case is_valid_url host_ok domain url of
             Inl e \<Rightarrow> Inl e
           | Inr valid \<Rightarrow>
               collect_links host_ok base domain hrefs (if valid then links @ [url] else links)))"

text \<open>
  \<open>_extract_links\<close>.  \<open>list(set(links))\<close> removes the duplicates and fixes no
  order; the order taken here is the one of \<^const>\<open>remdups\<close>.
\<close>

definition extract_links :: "config \<Rightarrow> env \<Rightarrow> string \<Rightarrow> string \<Rightarrow> py_error + string list" where
  "extract_links cfg ev domain html =
     (case collect_links (e_host_ok ev) (base_url cfg) domain (e_anchors ev html) [] of
        Inl e \<Rightarrow> Inl e
      | Inr links \<Rightarrow> Inr (remdups links))"

text \<open>
  \<open>_fetch_url\<close>: the data of a page are its extracted text and its HTML, and
  \<open>None\<close> stands for the Python \<open>None\<close>.
\<close>

definition fetch_url :: "config \<Rightarrow> env \<Rightarrow> string \<Rightarrow> crawler \<Rightarrow> (string \<times> string) option \<times> crawler" where
  "fetch_url cfg ev url st =
     (case handle_request cfg ev url st of
        (None, st1) \<Rightarrow> (None, st1)
      | (Some resp, st1) \<Rightarrow>
          if \<not> py_in ''text/html'' (r_content_type resp) then (None, st1)
          else (case r_text resp of
                  Inl e \<Rightarrow> (None, st1\<lparr>errors := errors st1 + 1\<rparr>)
                | Inr content \<Rightarrow>
                    if e_md5 ev content \<in> set (content_hashes st1) then (None, st1)
                    else (let st2 = st1\<lparr>content_hashes := content_hashes st1 @ [e_md5 ev content]\<rparr>
                          in case e_soup ev content of
                               Inl e \<Rightarrow> (None, st2\<lparr>errors := errors st2 + 1\<rparr>)
                             | Inr text_content \<Rightarrow>
                                 (Some (text_content, content),
                                  st2\<lparr>pages_processed := pages_processed st2 + 1\<rparr>))))"

text \<open>
  \<open>_download_file\<close>, without the statistics of the PDF extraction: a stored file
  is counted, a failure while storing puts the URL into \<open>failed_urls\<close>.
\<close>

definition download_file :: "config \<Rightarrow> env \<Rightarrow> string \<Rightarrow> string \<Rightarrow> crawler \<Rightarrow> crawler" where
  "download_file cfg ev url category st =
     (case handle_request cfg ev url st of
        (None, st1) \<Rightarrow> st1
      | (Some resp, st1) \<Rightarrow>
          if e_write_ok ev url
          then st1\<lparr>downloads := set_add (category, url) (downloads st1),
                   files_downloaded := files_downloaded st1 + 1\<rparr>
          else st1\<lparr>failed_urls := set_add url (failed_urls st1), errors := errors st1 + 1\<rparr>)"

text \<open>\<open>_process_url\<close>; an exception of the classifier leaves the method.\<close>

definition process_url :: "config \<Rightarrow> env \<Rightarrow> string \<Rightarrow> crawler \<Rightarrow> py_error + ((string \<times> string) option \<times> crawler)" where
  "process_url cfg ev url st =
     (case route_url (e_host_ok ev) url of
        Inl e \<Rightarrow> Inl e
      | Inr (Download category) \<Rightarrow> Inr (None, download_file cfg ev url category st)
      | Inr Skip \<Rightarrow> Inr (None, st)
      | Inr Fetch \<Rightarrow> Inr (fetch_url cfg ev url st))"

text \<open>
  \<open>process_batch\<close>: \<open>asyncio.gather\<close> over the URLs of a batch, taken here one
  after the other in the order of the batch; the results come back in that
  order, and an exception of one task leaves \<open>crawl\<close>.
\<close>

fun process_batch :: "config \<Rightarrow> env \<Rightarrow> string list \<Rightarrow> crawler \<Rightarrow> py_error + ((string \<times> string) option list \<times> crawler)" where
  "process_batch cfg ev [] st = Inr ([], st)"
| "process_batch cfg ev (url # urls) st =
     (case process_url cfg ev url st of
        Inl e \<Rightarrow> Inl e
      | Inr (data, st1) \<Rightarrow>
          (case process_batch cfg ev urls st1 of
             Inl e \<Rightarrow> Inl e
           | Inr (results, st2) \<Rightarrow> Inr (data # results, st2)))"

text \<open>
  The inner loop of \<open>crawl\<close> over the new links of one page: a link that is not
  in \<open>seen_urls\<close> is appended to the queue and added to \<open>seen_urls\<close>.
\<close>

fun enqueue_links :: "string list \<Rightarrow> string list \<times> string list \<Rightarrow> string list \<times> string list" where
  "enqueue_links [] (queue, seen) = (queue, seen)"
| "enqueue_links (link # links) (queue, seen) =
     (if link \<in> set seen then enqueue_links links (queue, seen)
      else enqueue_links links (queue @ [link], seen @ [link]))"

text \<open>
  The state of the loop of \<open>crawl\<close>: the queue, \<open>seen_urls\<close> (a set, kept as a
  list without duplicates), the rest of the crawler, and the URLs handed to
  \<open>_process_url\<close> so far (\<open>dispatched\<close> is not a variable of the source).
\<close>

record loop_state =
  queue :: "string list"
  seen_urls :: "string list"
  crawler_state :: crawler
  dispatched :: "string list"

text \<open>
  The loop \<open>for url, data in zip(batch_urls, results)\<close>: a page with data is saved
  and its links are queued; an exception of \<open>_extract_links\<close> leaves \<open>crawl\<close>.
\<close>

fun handle_results :: "config \<Rightarrow> env \<Rightarrow> string \<Rightarrow> (string \<times> (string \<times> string) option) list \<Rightarrow> loop_state \<Rightarrow> py_error + loop_state" where
  "handle_results cfg ev domain [] s = Inr s"
| "handle_results cfg ev domain ((url, None) # rest) s = handle_results cfg ev domain rest s"
| "handle_results cfg ev domain ((url, Some (text_content, html)) # rest) s =
     (let st = crawler_state s;
          s1 = s\<lparr>crawler_state := st\<lparr>text_files := text_files st @ [(url, text_content)]\<rparr>\<rparr>
      in case extract_links cfg ev domain html of
           Inl e \<Rightarrow> Inl e
         | Inr new_links \<Rightarrow>
             (let (q, seen) = enqueue_links new_links (queue s1, seen_urls s1)
              in handle_results cfg ev domain rest (s1\<lparr>queue := q, seen_urls := seen\<rparr>)))"

text \<open>
  One iteration of the \<open>while\<close> loop of \<open>crawl\<close>, for a positive batch width: pop
  the batch, process it, handle the results, sleep \<open>request_delay\<close>.
\<close>

definition crawl_iteration :: "config \<Rightarrow> env \<Rightarrow> string \<Rightarrow> loop_state \<Rightarrow> py_error + loop_state" where
  "crawl_iteration cfg ev domain s =
     (let batch_size = min (nat (concurrent_requests cfg)) (length (queue s));
          batch_urls = take batch_size (queue s);
          s1 = s\<lparr>queue := drop batch_size (queue s), dispatched := dispatched s @ batch_urls\<rparr>
      in case process_batch cfg ev batch_urls (crawler_state s1) of
           Inl e \<Rightarrow> Inl e
         | Inr (results, st) \<Rightarrow>
             (case handle_results cfg ev domain (zip batch_urls results) (s1\<lparr>crawler_state := st\<rparr>) of
                Inl e \<Rightarrow> Inl e
              | Inr s2 \<Rightarrow>
                  Inr (s2\<lparr>crawler_state :=
                         (crawler_state s2)\<lparr>slept := slept (crawler_state s2) @ [request_delay cfg]\<rparr>\<rparr>)))"


text \<open>
  What one iteration does to the queue and to \<open>seen_urls\<close>: the batch leaves the
  front of the queue, and the same new links are appended to both.  These facts
  give the termination of the loop.
\<close>

lemma enqueue_links_appends:
  "\<exists>new. enqueue_links links (q, seen) = (q @ new, seen @ new) \<and>
         distinct new \<and> set new = set links - set seen"
proof (induction links arbitrary: q seen)
  case Nil
  then show ?case by simp
next
  case (Cons link links)
  show ?case
  proof (cases "link \<in> set seen")
    case True
    from Cons.IH [of q seen] obtain new where
      "enqueue_links links (q, seen) = (q @ new, seen @ new)" "distinct new"
      "set new = set links - set seen" by blast
    then show ?thesis using True by (intro exI [of _ new]) auto
  next
    case False
    from Cons.IH [of "q @ [link]" "seen @ [link]"] obtain new where
      "enqueue_links links (q @ [link], seen @ [link]) = ((q @ [link]) @ new, (seen @ [link]) @ new)"
      "distinct new" "set new = set links - set (seen @ [link])"
      by blast
    then show ?thesis using False by (intro exI [of _ "link # new"]) auto
  qed
qed

lemma handle_results_appends:
  "handle_results cfg ev domain rs s = Inr s' \<Longrightarrow>
   \<exists>new. queue s' = queue s @ new \<and> seen_urls s' = seen_urls s @ new \<and>
         dispatched s' = dispatched s \<and> distinct new \<and> set new \<inter> set (seen_urls s) = {}"
proof (induction cfg ev domain rs s rule: handle_results.induct)
  case (1 cfg ev domain s)
  then show ?case by simp
next
  case (2 cfg ev domain url rest s)
  then show ?case by simp
next
  case (3 cfg ev domain url text_content html rest s)
  let ?st = "crawler_state s"
  let ?s1 = "s\<lparr>crawler_state := ?st\<lparr>text_files := text_files ?st @ [(url, text_content)]\<rparr>\<rparr>"
  from "3.prems" obtain new_links where
    ex: "extract_links cfg ev domain html = Inr new_links"
    by (cases "extract_links cfg ev domain html") (simp_all add: Let_def)
  obtain new where
    en: "enqueue_links new_links (queue ?s1, seen_urls ?s1) = (queue ?s1 @ new, seen_urls ?s1 @ new)"
    and new: "distinct new" "set new = set new_links - set (seen_urls ?s1)"
    using enqueue_links_appends by blast
  let ?s2 = "?s1\<lparr>queue := queue ?s1 @ new, seen_urls := seen_urls ?s1 @ new\<rparr>"
  have run: "handle_results cfg ev domain rest ?s2 = Inr s'"
    using "3.prems" ex en by (simp add: Let_def)
  from "3.IH" [OF refl refl ex refl en [symmetric] run]
  obtain new' where n': "queue s' = queue ?s2 @ new'" "seen_urls s' = seen_urls ?s2 @ new'"
    "dispatched s' = dispatched ?s2" "distinct new'" "set new' \<inter> set (seen_urls ?s2) = {}"
    by blast
  have "distinct (new @ new')" using new(1) n'(4,5) by auto
  moreover have "set (new @ new') \<inter> set (seen_urls s) = {}" using new(2) n'(5) by auto
  ultimately show ?case using n'(1,2,3) by (intro exI [of _ "new @ new'"]) simp
qed

lemma crawl_iteration_appends:
  assumes "crawl_iteration cfg ev domain s = Inr s'"
  shows "\<exists>new. queue s' =
                 drop (min (nat (concurrent_requests cfg)) (length (queue s))) (queue s) @ new \<and>
               seen_urls s' = seen_urls s @ new \<and>
               dispatched s' =
                 dispatched s @ take (min (nat (concurrent_requests cfg)) (length (queue s))) (queue s) \<and>
               distinct new \<and> set new \<inter> set (seen_urls s) = {}"
proof -
  let ?b = "min (nat (concurrent_requests cfg)) (length (queue s))"
  let ?s1 = "s\<lparr>queue := drop ?b (queue s), dispatched := dispatched s @ take ?b (queue s)\<rparr>"
  from assms obtain results st where
    pb: "process_batch cfg ev (take ?b (queue s)) (crawler_state ?s1) = Inr (results, st)"
    by (cases "process_batch cfg ev (take ?b (queue s)) (crawler_state ?s1)")
       (auto simp add: crawl_iteration_def Let_def)
  from assms pb obtain s2 where
    hr: "handle_results cfg ev domain (zip (take ?b (queue s)) results) (?s1\<lparr>crawler_state := st\<rparr>) = Inr s2"
    and s': "s' = s2\<lparr>crawler_state :=
                      (crawler_state s2)\<lparr>slept := slept (crawler_state s2) @ [request_delay cfg]\<rparr>\<rparr>"
    by (cases "handle_results cfg ev domain (zip (take ?b (queue s)) results) (?s1\<lparr>crawler_state := st\<rparr>)")
       (auto simp add: crawl_iteration_def Let_def)
  from handle_results_appends [OF hr] s' show ?thesis by simp
qed

text \<open>
  The \<open>while\<close> loop of \<open>crawl\<close>.  The result is \<open>None\<close> when the loop never ends:
  with \<open>concurrent_requests \<le> 0\<close> the batch is empty, so an iteration changes
  neither the queue nor \<open>seen_urls\<close> and the condition stays true.  Otherwise
  the loop ends, with an exception that left \<open>crawl\<close> or with the final state.
\<close>

function crawl_loop :: "config \<Rightarrow> env \<Rightarrow> string \<Rightarrow> loop_state \<Rightarrow> (py_error + loop_state) option" where
  "crawl_loop cfg ev domain s =
     (if queue s \<noteq> [] \<and> int (length (seen_urls s)) < max_pages cfg
      then (if concurrent_requests cfg \<le> 0 then None
            else (case crawl_iteration cfg ev domain s of
                    Inl e \<Rightarrow> Some (Inl e)
                  | Inr s' \<Rightarrow> crawl_loop cfg ev domain s'))
      else Some (Inr s))"
  by pat_completeness auto
termination
proof (relation "inv_image (less_than <*lex*> less_than)
         (\<lambda>(cfg, ev, domain, s).
            (nat (max_pages cfg - int (length (seen_urls s))), length (queue s)))",
       goal_cases)
  case 1
  show ?case by (intro wf_inv_image wf_lex_prod wf_less_than)
next
  case (2 cfg ev domain s s')
  from crawl_iteration_appends [OF 2(3)] obtain new where
    n: "queue s' = drop (min (nat (concurrent_requests cfg)) (length (queue s))) (queue s) @ new"
       "seen_urls s' = seen_urls s @ new"
    by blast
  show ?case
  proof (cases "new = []")
    case True
    have "0 < min (nat (concurrent_requests cfg)) (length (queue s))" using 2(1,2) by simp
    then show ?thesis using n True 2(1) by simp
  next
    case False
    then have "0 < length new" by simp
    then show ?thesis using n 2(1) by simp
  qed
qed

declare crawl_loop.simps [simp del]

text \<open>The state \<open>_init_tracking\<close> sets up.\<close>

definition initial_crawler :: crawler where
  "initial_crawler =
     \<lparr>failed_urls = [], content_hashes = [], pages_processed = 0, files_downloaded = 0,
      errors = 0, proxy_successes = 0, proxy_failures = 0, requests = [], slept = [],
      text_files = [], downloads = []\<rparr>"

text \<open>
  \<open>EnhancedCrawler(...)\<close> followed by \<open>crawl()\<close>: the constructor computes
  \<open>self.domain\<close> with \<open>urlparse\<close>, which may raise; \<open>crawl\<close> starts from the queue
  and the set that hold the base URL.
\<close>

definition initial_loop_state :: "config \<Rightarrow> loop_state" where
  "initial_loop_state cfg =
     \<lparr>queue = [base_url cfg], seen_urls = [base_url cfg], crawler_state = initial_crawler,
      dispatched = []\<rparr>"

definition crawl :: "config \<Rightarrow> env \<Rightarrow> (py_error + loop_state) option" where
  "crawl cfg ev =
     (case urlparse (e_host_ok ev) (base_url cfg) [] of
        Inl e \<Rightarrow> Some (Inl e)
      | Inr parsed \<Rightarrow> crawl_loop cfg ev (p_netloc parsed) (initial_loop_state cfg))"



section \<open>crawler.py: claiming a URL\<close>

text \<open>
  The table \<open>visited_urls\<close> of \<open>DatabaseHandler\<close> (\<open>crawler.py\<close>, l.31-54) has the
  URL as its primary key: it is a set of strings.  \<open>is_visited\<close> selects a row,
  \<open>mark_as_visited\<close> is \<open>INSERT OR IGNORE\<close>.  The database file outlives a run, so
  the table need not be empty when a run starts.
\<close>

definition is_visited :: "string set \<Rightarrow> string \<Rightarrow> bool" where
  "is_visited visited url = (url \<in> visited)"

definition mark_as_visited :: "string set \<Rightarrow> string \<Rightarrow> string set" where
  "mark_as_visited visited url = insert url visited"

datatype claim_result = New | Seen

text \<open>
  The first lines of \<open>Crawler.crawl_page\<close> (l.177-182): the URL is normalised
  (\<open>urlparse\<close> may raise, before the lock is taken); then, holding the global
  \<open>lock\<close>, the method returns when the normalised URL is visited (\<^const>\<open>Seen\<close>)
  and marks it otherwise (\<^const>\<open>New\<close>), after which the page is fetched.  Nothing
  else writes to the table, so the block under the lock is one step on it.
\<close>

definition claim :: "(string \<Rightarrow> bool) \<Rightarrow> string \<Rightarrow> string set \<Rightarrow> (py_error + claim_result) \<times> string set" where
  "claim host_ok url visited =
     (case normalize_url_crawler host_ok url of
        Inl e \<Rightarrow> (Inl e, visited)
      | Inr normalized_url \<Rightarrow>
          if is_visited visited normalized_url then (Inr Seen, visited)
          else (Inr New, mark_as_visited visited normalized_url))"

text \<open>
  The worker threads of one run call \<open>crawl_page\<close> with the URLs they take from
  the queue; the lock orders their claims.  \<open>run_claims\<close> performs the calls
  \<open>(worker, url)\<close> in that order and records the outcome of each.
\<close>

fun run_claims :: "(string \<Rightarrow> bool) \<Rightarrow> (nat \<times> string) list \<Rightarrow> string set \<Rightarrow> (nat \<times> string \<times> (py_error + claim_result)) list" where
  "run_claims host_ok [] visited = []"
| "run_claims host_ok ((worker, url) # calls) visited =
     (case claim host_ok url visited of
        (outcome, visited') \<Rightarrow> (worker, url, outcome) # run_claims host_ok calls visited')"

text \<open>The calls of a record in which the normalised URL \<open>u\<close> was claimed as new.\<close>

definition claimed_new :: "(string \<Rightarrow> bool) \<Rightarrow> string \<Rightarrow> (nat \<times> string \<times> (py_error + claim_result)) list \<Rightarrow> (nat \<times> string \<times> (py_error + claim_result)) list" where
  "claimed_new host_ok u record =
     filter (\<lambda>(worker, url, outcome).
               outcome = Inr New \<and> normalize_url_crawler host_ok url = Inr u) record"
section \<open>Facts about the string operations\<close>

lemma split_on_not_Nil [simp]: "split_on c s \<noteq> []"
  by (induction s) (auto split: list.splits)

lemma split_on_absent: "c \<notin> set s \<Longrightarrow> split_on c s = [s]"
  by (induction s) auto

lemma split_on_first: "c \<notin> set xs \<Longrightarrow> split_on c (xs @ c # ys) = xs # split_on c ys"
  by (induction xs) auto

lemma rfind_char_last:
  "c \<notin> set l \<Longrightarrow> rfind_char c (a @ c # l) = length a"
  by (simp add: rfind_char_def takeWhile_append)


section \<open>Properties of the PDF extractor\<close>

lemma pdf_iteration_invoked:
  "invoked (pdf_iteration p m v) = invoked v @ [fst m]"
  by (simp add: pdf_iteration_def Let_def split: sum.splits)

lemma pdf_loop_invoked:
  "invoked (pdf_loop p ms v) = invoked v @ map fst ms"
  by (induction ms arbitrary: v) (simp_all add: pdf_iteration_invoked)

lemma pdf_iteration_keep:
  "stripped_length p m \<le> max_length v \<Longrightarrow>
   best_text (pdf_iteration p m v) = best_text v \<and>
   best_method (pdf_iteration p m v) = best_method v \<and>
   max_length (pdf_iteration p m v) = max_length v"
  by (cases "snd m p") (simp_all add: pdf_iteration_def stripped_length_def Let_def)

lemma pdf_iteration_take:
  "max_length v < stripped_length p m \<Longrightarrow>
   \<exists>t. snd m p = Inr t \<and> stripped_length p m = length (py_strip t) \<and>
       best_text (pdf_iteration p m v) = t \<and>
       best_method (pdf_iteration p m v) = fst m \<and>
       max_length (pdf_iteration p m v) = length (py_strip t)"
  by (cases "snd m p") (simp_all add: pdf_iteration_def stripped_length_def Let_def)

lemma pdf_loop_keep:
  "\<forall>m\<in>set ms. stripped_length p m \<le> max_length v \<Longrightarrow>
   best_text (pdf_loop p ms v) = best_text v \<and>
   best_method (pdf_loop p ms v) = best_method v \<and>
   max_length (pdf_loop p ms v) = max_length v"
proof (induction ms arbitrary: v)
  case Nil
  then show ?case by simp
next
  case (Cons m ms)
  have k: "best_text (pdf_iteration p m v) = best_text v \<and>
           best_method (pdf_iteration p m v) = best_method v \<and>
           max_length (pdf_iteration p m v) = max_length v"
    using Cons.prems by (simp add: pdf_iteration_keep)
  have "\<forall>x\<in>set ms. stripped_length p x \<le> max_length (pdf_iteration p m v)"
    using Cons.prems k by simp
  from Cons.IH [OF this] k show ?case by simp
qed

text \<open>
  When some backend beats the running maximum, the loop ends on the first backend
  that reaches the greatest stripped length.
\<close>

lemma pdf_loop_take:
  "\<exists>m\<in>set ms. max_length v < stripped_length p m \<Longrightarrow>
   \<exists>pre m post t.
     ms = pre @ m # post \<and> snd m p = Inr t \<and>
     best_text (pdf_loop p ms v) = t \<and>
     best_method (pdf_loop p ms v) = fst m \<and>
     max_length (pdf_loop p ms v) = length (py_strip t) \<and>
     max_length v < length (py_strip t) \<and>
     (\<forall>x\<in>set pre. stripped_length p x < length (py_strip t)) \<and>
     (\<forall>x\<in>set post. stripped_length p x \<le> length (py_strip t))"
proof (induction ms arbitrary: v)
  case Nil
  then show ?case by simp
next
  case (Cons m ms)
  let ?v = "pdf_iteration p m v"
  show ?case
  proof (cases "\<exists>x\<in>set ms. max_length ?v < stripped_length p x")
    case True
    from Cons.IH [OF True] obtain pre m' post t where
      h: "ms = pre @ m' # post" "snd m' p = Inr t"
         "best_text (pdf_loop p ms ?v) = t"
         "best_method (pdf_loop p ms ?v) = fst m'"
         "max_length (pdf_loop p ms ?v) = length (py_strip t)"
         "max_length ?v < length (py_strip t)"
         "\<forall>x\<in>set pre. stripped_length p x < length (py_strip t)"
         "\<forall>x\<in>set post. stripped_length p x \<le> length (py_strip t)"
      by blast
    have ge: "max_length v \<le> max_length ?v \<and> stripped_length p m \<le> max_length ?v"
      by (cases "snd m p") (simp_all add: pdf_iteration_def stripped_length_def Let_def)
    have "m # ms = (m # pre) @ m' # post" using h(1) by simp
    moreover have "\<forall>x\<in>set (m # pre). stripped_length p x < length (py_strip t)"
      using h(6,7) ge by auto
    moreover have "max_length v < length (py_strip t)" using h(6) ge by linarith
    ultimately show ?thesis using h(2,3,4,5,8)
      by (intro exI [of _ "m # pre"] exI [of _ m'] exI [of _ post] exI [of _ t]) simp
  next
    case False
    then have rest: "\<forall>x\<in>set ms. stripped_length p x \<le> max_length ?v"
      by (simp add: not_less)
    have first: "max_length v < stripped_length p m"
    proof (rule ccontr)
      assume "\<not> max_length v < stripped_length p m"
      then have "stripped_length p m \<le> max_length v" by simp
      then have "max_length ?v = max_length v" by (simp add: pdf_iteration_keep)
      with rest have "\<forall>x\<in>set ms. stripped_length p x \<le> max_length v" by simp
      with \<open>stripped_length p m \<le> max_length v\<close> Cons.prems show False by auto
    qed
    from pdf_iteration_take [OF first] obtain t where
      t: "snd m p = Inr t" "stripped_length p m = length (py_strip t)"
         "best_text ?v = t" "best_method ?v = fst m"
         "max_length ?v = length (py_strip t)"
      by blast
    from pdf_loop_keep [OF rest] t first rest show ?thesis
      by (intro exI [of _ "[]"] exI [of _ m] exI [of _ ms] exI [of _ t]) simp
  qed
qed

text \<open>
  C2.  \<open>extract_text_from_pdf\<close> invokes every backend, in the order the dictionary
  declares them, also after a backend has raised.  When every backend yields a text
  that is empty once stripped (or raises), the result is \<open>("", "")\<close>.  Otherwise the
  result is the text and the name of one backend whose stripped text is at least as
  long as every other backend's and strictly longer than that of every backend
  declared before it: the longest wins, and a tie goes to the earlier backend.
\<close>

theorem extract_text_from_pdf_longest_wins:
  "invoked (pdf_run methods pdf_path) = map fst methods \<and>
   (if \<forall>m\<in>set methods. stripped_length pdf_path m = 0
    then extract_text_from_pdf methods pdf_path = ([], [])
    else \<exists>pre name f post t.
           methods = pre @ (name, f) # post \<and> f pdf_path = Inr t \<and>
           extract_text_from_pdf methods pdf_path = (t, name) \<and>
           0 < length (py_strip t) \<and>
           (\<forall>x\<in>set pre. stripped_length pdf_path x < length (py_strip t)) \<and>
           (\<forall>x\<in>set post. stripped_length pdf_path x \<le> length (py_strip t)))"
proof -
  let ?v0 = "\<lparr>best_text = [], best_method = [], max_length = 0, invoked = []\<rparr>"
  have calls: "invoked (pdf_run methods pdf_path) = map fst methods"
    by (simp add: pdf_run_def pdf_loop_invoked)
  show ?thesis
  proof (cases "\<forall>m\<in>set methods. stripped_length pdf_path m = 0")
    case True
    then have "\<forall>m\<in>set methods. stripped_length pdf_path m \<le> max_length ?v0" by simp
    from pdf_loop_keep [OF this] have
      "extract_text_from_pdf methods pdf_path = ([], [])"
      by (simp add: extract_text_from_pdf_def pdf_run_def Let_def)
    then show ?thesis
      by (intro conjI [OF calls]) (simp only: if_P [OF True])
  next
    case False
    then have "\<exists>m\<in>set methods. max_length ?v0 < stripped_length pdf_path m" by simp
    from pdf_loop_take [OF this] obtain pre m post t where
      h: "methods = pre @ m # post" "snd m pdf_path = Inr t"
         "best_text (pdf_loop pdf_path methods ?v0) = t"
         "best_method (pdf_loop pdf_path methods ?v0) = fst m"
         "max_length ?v0 < length (py_strip t)"
         "\<forall>x\<in>set pre. stripped_length pdf_path x < length (py_strip t)"
         "\<forall>x\<in>set post. stripped_length pdf_path x \<le> length (py_strip t)"
      by blast
    have "methods = pre @ (fst m, snd m) # post" using h(1) by simp
    moreover have "extract_text_from_pdf methods pdf_path = (t, fst m)"
      using h(3,4) by (simp add: extract_text_from_pdf_def pdf_run_def Let_def)
    moreover have "0 < length (py_strip t)" using h(5) by simp
    ultimately have ex:
      "\<exists>pre name f post t.
           methods = pre @ (name, f) # post \<and> f pdf_path = Inr t \<and>
           extract_text_from_pdf methods pdf_path = (t, name) \<and>
           0 < length (py_strip t) \<and>
           (\<forall>x\<in>set pre. stripped_length pdf_path x < length (py_strip t)) \<and>
           (\<forall>x\<in>set post. stripped_length pdf_path x \<le> length (py_strip t))"
      using h(2,6,7) by blast
    show ?thesis
      by (intro conjI [OF calls]) (simp only: if_not_P [OF False] ex)
  qed
qed

theorem extract_text_from_pdf_longest_wins_witness:
  "(\<exists>m\<in>set (methods_v02 (\<lambda>p. Inr ''abc'') (\<lambda>p. Inl OtherError) (\<lambda>p. Inr '' abcdefghij '')).
      stripped_length ''doc.pdf'' m \<noteq> 0) \<and>
   invoked (pdf_run (methods_v02 (\<lambda>p. Inr ''abc'') (\<lambda>p. Inl OtherError)
                      (\<lambda>p. Inr '' abcdefghij '')) ''doc.pdf'')
     = [''pymupdf'', ''pypdf2'', ''ocr''] \<and>
   extract_text_from_pdf (methods_v02 (\<lambda>p. Inr ''abc'') (\<lambda>p. Inl OtherError)
                           (\<lambda>p. Inr '' abcdefghij '')) ''doc.pdf''
     = ('' abcdefghij '', ''ocr'')"
  using extract_text_from_pdf_longest_wins
    [of "methods_v02 (\<lambda>p. Inr ''abc'') (\<lambda>p. Inl OtherError) (\<lambda>p. Inr '' abcdefghij '')"
        "''doc.pdf''"]
  by (simp add: methods_v02_def guarded_def stripped_length_def py_strip_def py_lstrip_def
        py_rstrip_def py_isspace_def pdf_run_def extract_text_from_pdf_def pdf_iteration_def
        Let_def)


section \<open>Properties of the classifier\<close>

lemma path_name_netloc:
  assumes "CHR ''/'' \<notin> set scheme" "CHR ''/'' \<notin> set netloc" "netloc \<noteq> []" "netloc \<noteq> ''.''"
  shows "path_name (scheme @ ''://'' @ netloc) = netloc"
proof -
  have "split_on CHR ''/'' (scheme @ ''://'' @ netloc)
        = split_on CHR ''/'' ((scheme @ '':'') @ CHR ''/'' # (CHR ''/'' # netloc))"
    by simp
  also have "\<dots> = (scheme @ '':'') # split_on CHR ''/'' (CHR ''/'' # netloc)"
    using assms(1) by (intro split_on_first) simp
  also have "\<dots> = [scheme @ '':'', [], netloc]"
    using assms(2) by (simp add: split_on_absent)
  finally show ?thesis using assms(3,4) by (simp add: path_name_def)
qed

lemma path_suffix_last_dot:
  assumes "path_name p = a @ CHR ''.'' # l" "a \<noteq> []" "l \<noteq> []" "CHR ''.'' \<notin> set l"
  shows "path_suffix p = CHR ''.'' # l"
  using assms by (simp add: path_suffix_def Let_def rfind_char_last)

lemma first_category_None_iff:
  "(first_category table ext = None) = (\<forall>e\<in>set table. ext \<notin> set (snd e))"
  by (induction table ext rule: first_category.induct) auto

lemma get_file_category_whole_url_nonempty:
  "py_lower (path_suffix url) \<noteq> [] \<Longrightarrow>
   get_file_category_whole_url exts url =
     Some (case first_category exts (py_lower (path_suffix url)) of
             None \<Rightarrow> ''other'' | Some category \<Rightarrow> category)"
  by (simp add: get_file_category_whole_url_def Let_def split: option.splits)

text \<open>
  C10, as the code has it.  \<open>Code.py\<close>, \<open>crawler4.py\<close> and \<open>Crawler5.py\<close> take
  \<open>Path(url).suffix\<close> of the whole URL string.  There a URL that ends with its
  network location (\<open>scheme://netloc\<close>, no path, query or fragment), where the
  network location has text on both sides of its last dot, gets the text from that
  last dot on as its suffix, and \<open>is_downloadable_file\<close> holds of it.  Its category
  is the one the table \<open>exts\<close> of the variant gives the lowercased suffix, and
  \<open>other\<close> exactly when no list of that table holds it: \<open>.zip\<close> is an archive in
  every variant, \<open>.py\<close> is \<open>code\<close> with the table of \<open>Code.py\<close> and \<open>Crawler5.py\<close> and
  \<open>other\<close> with the table of \<open>crawler4.py\<close>.  In \<open>Code.py\<close> and \<open>crawler4.py\<close>,
  \<open>_process_url\<close> sends the URL to the download pipeline with that category.
\<close>

theorem whole_url_bare_domain_is_file:
  assumes "CHR ''/'' \<notin> set scheme" and "CHR ''/'' \<notin> set (a @ CHR ''.'' # l)"
    and "a \<noteq> []" and "l \<noteq> []" and "CHR ''.'' \<notin> set l"
  shows "path_suffix (scheme @ ''://'' @ a @ CHR ''.'' # l) = CHR ''.'' # l \<and>
         get_file_category_whole_url exts (scheme @ ''://'' @ a @ CHR ''.'' # l) =
           Some (case first_category exts (py_lower (CHR ''.'' # l)) of
                   None \<Rightarrow> ''other'' | Some category \<Rightarrow> category) \<and>
         is_downloadable_file_whole_url exts (scheme @ ''://'' @ a @ CHR ''.'' # l) \<and>
         route_whole_url exts (scheme @ ''://'' @ a @ CHR ''.'' # l) =
           DownloadFile
             (case first_category exts (py_lower (CHR ''.'' # l)) of
                None \<Rightarrow> ''other'' | Some category \<Rightarrow> category) \<and>
         ((first_category exts (py_lower (CHR ''.'' # l)) = None) =
          (\<forall>e\<in>set exts. py_lower (CHR ''.'' # l) \<notin> set (snd e)))"
proof -
  let ?url = "scheme @ ''://'' @ a @ CHR ''.'' # l"
  let ?cat = "case first_category exts (py_lower (CHR ''.'' # l)) of
                None \<Rightarrow> ''other'' | Some category \<Rightarrow> category"
  have "a @ CHR ''.'' # l \<noteq> ''.''" using assms(3) by (cases a) simp_all
  then have name: "path_name ?url = a @ CHR ''.'' # l"
    using path_name_netloc [OF assms(1,2)] by simp
  have suffix: "path_suffix ?url = CHR ''.'' # l"
    by (rule path_suffix_last_dot [OF name assms(3,4,5)])
  have "py_lower (path_suffix ?url) \<noteq> []" unfolding suffix by (simp add: py_lower_def)
  from get_file_category_whole_url_nonempty [OF this, of exts]
  have cat: "get_file_category_whole_url exts ?url = Some ?cat"
    unfolding suffix .
  have down: "is_downloadable_file_whole_url exts ?url"
    using cat by (simp add: is_downloadable_file_whole_url_def)
  have route: "route_whole_url exts ?url = DownloadFile ?cat"
    using cat down by (simp add: route_whole_url_def)
  from suffix cat down route show ?thesis
    by (simp only: first_category_None_iff simp_thms)
qed

lemma py_lower_com: "py_lower ''.com'' = ''.com''"
  by (simp add: py_lower_def py_lower_char_def)

lemma py_lower_py: "py_lower ''.py'' = ''.py''"
  by (simp add: py_lower_def py_lower_char_def)

theorem whole_url_bare_domain_is_file_witness:
  "CHR ''/'' \<notin> set ''https'' \<and> CHR ''/'' \<notin> set ''example.com'' \<and>
   CHR ''/'' \<notin> set ''example.py'' \<and>
   path_suffix ''https://example.com'' = ''.com'' \<and>
   route_whole_url downloadable_extensions ''https://example.com'' = DownloadFile ''other'' \<and>
   route_whole_url downloadable_extensions_crawler4 ''https://example.com'' =
     DownloadFile ''other'' \<and>
   path_suffix ''https://example.py'' = ''.py'' \<and>
   get_file_category_whole_url downloadable_extensions ''https://example.py'' = Some ''code'' \<and>
   route_whole_url downloadable_extensions ''https://example.py'' = DownloadFile ''code'' \<and>
   get_file_category_whole_url downloadable_extensions_crawler4 ''https://example.py'' =
     Some ''other'' \<and>
   route_whole_url downloadable_extensions_crawler4 ''https://example.py'' =
     DownloadFile ''other''"
  using whole_url_bare_domain_is_file
          [of "''https''" "''example''" "''com''" downloadable_extensions]
        whole_url_bare_domain_is_file
          [of "''https''" "''example''" "''com''" downloadable_extensions_crawler4]
        whole_url_bare_domain_is_file
          [of "''https''" "''example''" "''py''" downloadable_extensions]
        whole_url_bare_domain_is_file
          [of "''https''" "''example''" "''py''" downloadable_extensions_crawler4]
  by (simp add: py_lower_com py_lower_py downloadable_extensions_def
        downloadable_extensions_crawler4_def)

text \<open>
  The claim as stated ("every such URL is of category \<open>other\<close>") fails on a host
  whose last label is a suffix of the table: \<open>https://example.zip\<close> is an archive,
  with the table of \<open>Code.py\<close> and \<open>Crawler5.py\<close> and with the table of
  \<open>crawler4.py\<close>.
\<close>

theorem whole_url_bare_domain_counterexample:
  "path_suffix ''https://example.zip'' = ''.zip'' \<and>
   get_file_category_whole_url downloadable_extensions ''https://example.zip'' =
     Some ''archive'' \<and>
   route_whole_url downloadable_extensions ''https://example.zip'' \<noteq> DownloadFile ''other'' \<and>
   get_file_category_whole_url downloadable_extensions_crawler4 ''https://example.zip'' =
     Some ''archive'' \<and>
   route_whole_url downloadable_extensions_crawler4 ''https://example.zip'' \<noteq>
     DownloadFile ''other''"
proof -
  have s: "path_suffix ''https://example.zip'' = ''.zip''"
    by (simp add: path_suffix_def path_name_def rfind_char_def Let_def)
  have l: "py_lower ''.zip'' = ''.zip''"
    by (simp add: py_lower_def py_lower_char_def)
  have c: "get_file_category_whole_url downloadable_extensions ''https://example.zip'' =
             Some ''archive''"
    by (simp add: get_file_category_whole_url_def s l downloadable_extensions_def)
  have c4: "get_file_category_whole_url downloadable_extensions_crawler4
              ''https://example.zip'' = Some ''archive''"
    by (simp add: get_file_category_whole_url_def s l downloadable_extensions_crawler4_def)
  show ?thesis
    by (simp add: s c c4 route_whole_url_def is_downloadable_file_whole_url_def)
qed
section \<open>Properties of URL normalisation\<close>

lemmas url_eval_defs =
  normalize_url_v02_def urljoin_def urlparse_def urlsplit_def split_scheme_def
  splitnetloc_def netloc_raises_def netloc_delim_def before_char_def after_char_def
  find_char_def rfind_char_def splitparams_def urlunparse_def urlunsplit_def
  drop_inner_empty_def rstrip_char_def c0_control_or_space_def unsafe_url_byte_def
  ascii_alpha_def py_lower_def py_lower_char_def uses_relative_def uses_netloc_def
  uses_params_def scheme_chars_def Let_def char_of_def bit_iff_odd

lemma normalize_mixed_case_query:
  "normalize_url_v02 host_ok ''https://example.com'' ''https://Example.COM/Path/?q=1#f''
   = Inr ''https://Example.COM/Path''"
  by (simp add: url_eval_defs)

lemma normalize_params_first:
  "normalize_url_v02 host_ok ''https://example.com'' ''/a;b/'' = Inr ''https://example.com/a;b''"
  by (simp add: url_eval_defs)

lemma normalize_params_second:
  "normalize_url_v02 host_ok ''https://example.com'' ''https://example.com/a;b''
   = Inr ''https://example.com/a''"
  by (simp add: url_eval_defs)

lemma normalize_crawler_params_first:
  "normalize_url_crawler host_ok ''https://example.com/a;b/'' = Inr ''https://example.com/a;b''"
  by (simp add: normalize_url_crawler_def url_eval_defs)

lemma normalize_crawler_params_second:
  "normalize_url_crawler host_ok ''https://example.com/a;b'' = Inr ''https://example.com/a''"
  by (simp add: normalize_url_crawler_def url_eval_defs)

text \<open>
  The claim C6 as stated fails: the host keeps its capitals and the query is
  dropped, so the result is not the canonical form the specification describes.
\<close>

theorem normalize_url_canonical_counterexample:
  "\<forall>host_ok.
     normalize_url_v02 host_ok ''https://example.com'' ''https://Example.COM/Path/?q=1#f''
       = Inr ''https://Example.COM/Path'' \<and>
     normalize_url_v02 host_ok ''https://example.com'' ''https://Example.COM/Path/?q=1#f''
       \<noteq> Inr (spec_canonical_url ''https'' ''Example.COM'' ''/Path/'' ''q=1'')"
  by (simp add: normalize_mixed_case_query spec_canonical_url_def py_lower_def
        py_lower_char_def rstrip_char_def)

text \<open>
  The claim C7 as stated fails, in \<open>Crawler-v02.py\<close> and in \<open>crawler.py\<close>: the
  trailing slash hides the parameters of the last path segment from \<open>urlparse\<close> in
  the first pass, and the second pass removes them.
\<close>

theorem normalize_url_idempotent_counterexample:
  "\<forall>host_ok.
     normalize_url_v02 host_ok ''https://example.com'' ''/a;b/'' = Inr ''https://example.com/a;b'' \<and>
     normalize_url_v02 host_ok ''https://example.com'' ''https://example.com/a;b''
       = Inr ''https://example.com/a'' \<and>
     normalize_url_crawler host_ok ''https://example.com/a;b/'' = Inr ''https://example.com/a;b'' \<and>
     normalize_url_crawler host_ok ''https://example.com/a;b'' = Inr ''https://example.com/a'' \<and>
     ''https://example.com/a'' \<noteq> ''https://example.com/a;b''"
  by (simp add: normalize_params_first normalize_params_second
        normalize_crawler_params_first normalize_crawler_params_second)

section \<open>Normalisation of absolute URLs\<close>

text \<open>
  What \<open>urlsplit\<close>, \<open>urlparse\<close>, \<open>urlunparse\<close> and \<open>urljoin\<close> do with an absolute URL
  \<open>s://n p t\<close> (\<^const>\<open>absolute_url_parts\<close>).
\<close>

lemma scheme_chars_facts:
  "\<forall>c\<in>set scheme_chars.
     \<not> unsafe_url_byte c \<and> c \<noteq> CHR '':'' \<and> py_lower_char c \<in> set scheme_chars \<and>
     py_lower_char (py_lower_char c) = py_lower_char c \<and>
     (ascii_alpha c \<longrightarrow> ascii_alpha (py_lower_char c))"
  by code_simp

lemma uses_relative_netloc: "\<forall>x\<in>set uses_relative. x \<in> set uses_netloc"
  by code_simp

lemma alpha_not_space: "ascii_alpha c \<Longrightarrow> \<not> c0_control_or_space c"
  by (auto simp add: ascii_alpha_def c0_control_or_space_def Let_def)

lemma rstrip_char_append:
  assumes "xs \<noteq> []" "last xs \<noteq> c"
  shows "rstrip_char c (xs @ ys) = xs @ rstrip_char c ys"
proof (cases "\<forall>x\<in>set ys. x = c")
  case True
  then have "dropWhile (\<lambda>x. x = c) (rev ys @ rev xs) = dropWhile (\<lambda>x. x = c) (rev xs)"
    by (intro dropWhile_append2) simp
  also have "\<dots> = rev xs" using assms by (cases xs rule: rev_cases) simp_all
  finally have l: "rstrip_char c (xs @ ys) = xs" by (simp add: rstrip_char_def)
  from True have "dropWhile (\<lambda>x. x = c) (rev ys) = []" by simp
  then have "rstrip_char c ys = []" by (simp add: rstrip_char_def)
  with l show ?thesis by simp
next
  case False
  then obtain x where "x \<in> set (rev ys)" "\<not> x = c" by auto
  then have "dropWhile (\<lambda>x. x = c) (rev ys @ rev xs) = dropWhile (\<lambda>x. x = c) (rev ys) @ rev xs"
    by (rule dropWhile_append1)
  then show ?thesis by (simp add: rstrip_char_def)
qed

lemma rstrip_char_idem: "rstrip_char c (rstrip_char c s) = rstrip_char c s"
  by (simp add: rstrip_char_def dropWhile_idem)

lemma split_scheme_absolute:
  assumes "s \<noteq> []" "ascii_alpha (hd s)" "\<forall>c\<in>set s. c \<in> set scheme_chars"
  shows "split_scheme dflt (s @ CHR '':'' # rest) = (py_lower s, rest)"
proof -
  have no: "CHR '':'' \<notin> set s" using assms(3) scheme_chars_facts by blast
  then have tw: "takeWhile (\<lambda>x. x \<noteq> CHR '':'') (s @ CHR '':'' # rest) = s"
    by (simp add: takeWhile_append)
  have i: "find_char CHR '':'' (s @ CHR '':'' # rest) = length s"
    unfolding find_char_def tw ..
  have h: "hd (s @ CHR '':'' # rest) = hd s" using assms(1) by simp
  show ?thesis
    unfolding split_scheme_def i Let_def h
    using assms by simp
qed

lemma splitnetloc_absolute:
  assumes "\<forall>c\<in>set n. \<not> netloc_delim c" "r = [] \<or> netloc_delim (hd r)"
  shows "splitnetloc (n @ r) = (n, r)"
proof (cases r)
  case Nil
  with assms(1) show ?thesis by (simp add: splitnetloc_def)
next
  case (Cons a r')
  with assms(2) have "netloc_delim a" by simp
  with assms(1) Cons show ?thesis
    by (simp add: splitnetloc_def takeWhile_append dropWhile_append)
qed

lemma before_char_append: "c \<notin> set xs \<Longrightarrow> before_char c (xs @ ys) = xs @ before_char c ys"
  by (simp add: before_char_def takeWhile_append)

lemma after_char_append: "c \<notin> set xs \<Longrightarrow> c \<in> set ys \<Longrightarrow> after_char c (xs @ ys) = after_char c ys"
  by (simp add: after_char_def dropWhile_append)

text \<open>The text of a tail before its query and its fragment is empty.\<close>

lemma tail_path_empty:
  assumes "t = [] \<or> hd t = CHR ''?'' \<or> hd t = CHR ''#''"
  shows "(let t' = (if CHR ''#'' \<in> set t then before_char CHR ''#'' t else t)
          in if CHR ''?'' \<in> set t' then before_char CHR ''?'' t' else t') = []"
proof (cases t)
  case Nil
  then show ?thesis by simp
next
  case (Cons a t')
  with assms have "a = CHR ''?'' \<or> a = CHR ''#''" by simp
  then show ?thesis
  proof
    assume "a = CHR ''?''"
    then show ?thesis using Cons by (simp add: before_char_def Let_def)
  next
    assume "a = CHR ''#''"
    then show ?thesis using Cons by (simp add: before_char_def Let_def)
  qed
qed

lemma urlsplit_absolute:
  assumes A: "absolute_url_parts s n p t"
  shows "urlsplit host_ok (s @ ''://'' @ n @ p @ t) dflt =
           Inr (py_lower s, n, p, tail_query t, tail_fragment t)"
proof -
  let ?U = "s @ ''://'' @ n @ p @ t"
  from A have s: "s \<noteq> []" "ascii_alpha (hd s)" "\<forall>c\<in>set s. c \<in> set scheme_chars"
    unfolding absolute_url_parts_def by blast+
  from A have n: "n \<noteq> []" "\<forall>c\<in>set n. \<not> netloc_delim c" "CHR ''['' \<notin> set n"
    "CHR '']'' \<notin> set n"
    unfolding absolute_url_parts_def by blast+
  from A have p: "p = [] \<or> hd p = CHR ''/''" "CHR ''?'' \<notin> set p" "CHR ''#'' \<notin> set p"
    "CHR '';'' \<notin> set p"
    unfolding absolute_url_parts_def by blast+
  from A have t: "t = [] \<or> hd t = CHR ''?'' \<or> hd t = CHR ''#''"
    unfolding absolute_url_parts_def by blast
  from A have u: "\<forall>c\<in>set (n @ p @ t). \<not> unsafe_url_byte c"
    unfolding absolute_url_parts_def by blast
  have "\<not> c0_control_or_space (hd s)" using s(2) by (rule alpha_not_space)
  then have strip: "dropWhile c0_control_or_space ?U = ?U" using s(1) by (cases s) simp_all
  have us: "\<forall>c\<in>set s. \<not> unsafe_url_byte c" using s(3) scheme_chars_facts by blast
  have uc: "\<not> unsafe_url_byte CHR '':''" "\<not> unsafe_url_byte CHR ''/''"
    by (simp_all add: unsafe_url_byte_def)
  have "\<forall>c\<in>set ?U. \<not> unsafe_url_byte c"
    using u us uc by auto
  then have filt: "filter (\<lambda>c. \<not> unsafe_url_byte c) ?U = ?U" by (simp only: filter_id_conv)
  have sch: "split_scheme d ?U = (py_lower s, ''//'' @ n @ p @ t)" for d
    using split_scheme_absolute [OF s, of d "''//'' @ n @ p @ t"] by simp
  have "p @ t = [] \<or> netloc_delim (hd (p @ t))"
    using p(1) t by (cases p) (auto simp add: netloc_delim_def)
  from splitnetloc_absolute [OF n(2) this]
  have net: "splitnetloc (n @ p @ t) = (n, p @ t)" .
  have nr: "\<not> netloc_raises host_ok n" using n(3,4) by (simp add: netloc_raises_def)
  let ?t' = "if CHR ''#'' \<in> set t then before_char CHR ''#'' t else t"
  have step1: "urlsplit host_ok ?U dflt =
      (let (url4, fragment) =
             (if CHR ''#'' \<in> set (p @ t)
              then (before_char CHR ''#'' (p @ t), after_char CHR ''#'' (p @ t))
              else (p @ t, []));
           (url5, query) =
             (if CHR ''?'' \<in> set url4
              then (before_char CHR ''?'' url4, after_char CHR ''?'' url4)
              else (url4, []))
       in Inr (py_lower s, n, url5, query, fragment))"
    unfolding urlsplit_def strip filt Let_def sch by (simp add: net nr)
  have frag: "(if CHR ''#'' \<in> set (p @ t)
              then (before_char CHR ''#'' (p @ t), after_char CHR ''#'' (p @ t))
              else (p @ t, [])) = (p @ ?t', tail_fragment t)"
    using p(3) by (simp add: before_char_append after_char_append tail_fragment_def)
  from tail_path_empty [OF t] have e:
    "(if CHR ''?'' \<in> set ?t' then before_char CHR ''?'' ?t' else ?t') = []"
    unfolding Let_def .
  have qry: "(if CHR ''?'' \<in> set (p @ ?t')
              then (before_char CHR ''?'' (p @ ?t'), after_char CHR ''?'' (p @ ?t'))
              else (p @ ?t', [])) = (p, tail_query t)"
  proof (cases "CHR ''?'' \<in> set ?t'")
    case True
    with e have "before_char CHR ''?'' ?t' = []" by simp
    with True p(2) show ?thesis
      by (simp add: before_char_append after_char_append tail_query_def Let_def)
  next
    case False
    with e have "?t' = []" by simp
    with False p(2) show ?thesis by (simp add: tail_query_def Let_def)
  qed
  show ?thesis unfolding step1 frag Let_def prod.case qry ..
qed

lemma urlparse_absolute:
  assumes A: "absolute_url_parts s n p t"
  shows "urlparse host_ok (s @ ''://'' @ n @ p @ t) dflt =
           Inr \<lparr>p_scheme = py_lower s, p_netloc = n, p_path = p, p_params = [],
                p_query = tail_query t, p_fragment = tail_fragment t\<rparr>"
proof -
  from A have "CHR '';'' \<notin> set p" unfolding absolute_url_parts_def by blast
  then show ?thesis
    unfolding urlparse_def urlsplit_absolute [OF A] by simp
qed

text \<open>The tail that \<open>urlunsplit\<close> writes for a query and a fragment.\<close>

lemma urlunparse_absolute:
  assumes "s \<noteq> []" "n \<noteq> []" "p = [] \<or> hd p = CHR ''/''"
  shows "urlunparse \<lparr>p_scheme = s, p_netloc = n, p_path = p, p_params = [],
                     p_query = q, p_fragment = f\<rparr> =
         s @ ''://'' @ n @ p @
           ((if q \<noteq> [] then CHR ''?'' # q else []) @ (if f \<noteq> [] then CHR ''#'' # f else []))"
proof -
  have "\<not> (p \<noteq> [] \<and> take 1 p \<noteq> ''/'')" using assms(3) by (cases p) auto
  then show ?thesis using assms(1,2)
    by (simp add: urlunparse_def urlunsplit_def Let_def)
qed

lemma py_lower_scheme:
  assumes "s \<noteq> []" "ascii_alpha (hd s)" "\<forall>c\<in>set s. c \<in> set scheme_chars"
  shows "py_lower s \<noteq> []" "ascii_alpha (hd (py_lower s))"
    "\<forall>c\<in>set (py_lower s). c \<in> set scheme_chars" "py_lower (py_lower s) = py_lower s"
proof -
  show "py_lower s \<noteq> []" using assms(1) by (simp add: py_lower_def)
  have "hd s \<in> set s" using assms(1) by simp
  then have "ascii_alpha (py_lower_char (hd s))"
    using assms(2,3) scheme_chars_facts by blast
  then show "ascii_alpha (hd (py_lower s))" using assms(1) by (simp add: py_lower_def hd_map)
  show "\<forall>c\<in>set (py_lower s). c \<in> set scheme_chars"
    using assms(3) scheme_chars_facts by (auto simp add: py_lower_def)
  show "py_lower (py_lower s) = py_lower s"
    using assms(3) scheme_chars_facts by (simp add: py_lower_def)
qed

lemma set_before_char: "set (before_char c s) \<subseteq> set s"
  unfolding before_char_def by (auto dest: set_takeWhileD)

lemma set_after_char: "set (after_char c s) \<subseteq> set s"
proof
  fix x assume "x \<in> set (after_char c s)"
  then have "x \<in> set (dropWhile (\<lambda>x. x \<noteq> c) s)"
    unfolding after_char_def by (rule in_set_dropD)
  then show "x \<in> set s" by (rule set_dropWhileD)
qed

lemma set_tail_fragment: "set (tail_fragment t) \<subseteq> set t"
  unfolding tail_fragment_def using set_after_char [of "CHR ''#''" t] by auto

lemma set_tail_query: "set (tail_query t) \<subseteq> set t"
proof -
  let ?t' = "if CHR ''#'' \<in> set t then before_char CHR ''#'' t else t"
  have a: "set ?t' \<subseteq> set t" using set_before_char [of "CHR ''#''" t] by auto
  have "set (tail_query t) \<subseteq> set ?t'"
    unfolding tail_query_def Let_def using set_after_char [of "CHR ''?''" ?t']
    by (cases "CHR ''?'' \<in> set ?t'") auto
  with a show ?thesis by blast
qed

lemma absolute_url_partsI:
  assumes "s \<noteq> []" "ascii_alpha (hd s)" "\<forall>c\<in>set s. c \<in> set scheme_chars" "n \<noteq> []"
    "\<forall>c\<in>set n. \<not> netloc_delim c \<and> c \<noteq> CHR ''['' \<and> c \<noteq> CHR '']''"
    "p = [] \<or> hd p = CHR ''/''"
    "\<forall>c\<in>set p. c \<noteq> CHR ''?'' \<and> c \<noteq> CHR ''#'' \<and> c \<noteq> CHR '';''"
    "t = [] \<or> hd t = CHR ''?'' \<or> hd t = CHR ''#''"
    "\<forall>c\<in>set (n @ p @ t). \<not> unsafe_url_byte c"
  shows "absolute_url_parts s n p t"
  unfolding absolute_url_parts_def by (intro conjI assms)

lemma absolute_url_partsD:
  assumes "absolute_url_parts s n p t"
  shows "s \<noteq> []" "ascii_alpha (hd s)" "\<forall>c\<in>set s. c \<in> set scheme_chars" "n \<noteq> []"
    "\<forall>c\<in>set n. \<not> netloc_delim c \<and> c \<noteq> CHR ''['' \<and> c \<noteq> CHR '']''"
    "p = [] \<or> hd p = CHR ''/''"
    "\<forall>c\<in>set p. c \<noteq> CHR ''?'' \<and> c \<noteq> CHR ''#'' \<and> c \<noteq> CHR '';''"
    "t = [] \<or> hd t = CHR ''?'' \<or> hd t = CHR ''#''"
    "\<forall>c\<in>set (n @ p @ t). \<not> unsafe_url_byte c"
  using assms unfolding absolute_url_parts_def by blast+

lemma absolute_rebuilt:
  assumes A: "absolute_url_parts s n p t"
  shows "absolute_url_parts (py_lower s) n p
           ((if tail_query t \<noteq> [] then CHR ''?'' # tail_query t else []) @
            (if tail_fragment t \<noteq> [] then CHR ''#'' # tail_fragment t else []))"
proof -
  let ?t2 = "(if tail_query t \<noteq> [] then CHR ''?'' # tail_query t else []) @
            (if tail_fragment t \<noteq> [] then CHR ''#'' # tail_fragment t else [])"
  note D = absolute_url_partsD [OF A]
  have h: "?t2 = [] \<or> hd ?t2 = CHR ''?'' \<or> hd ?t2 = CHR ''#''" by simp
  have uc: "\<not> unsafe_url_byte CHR ''?''" "\<not> unsafe_url_byte CHR ''#''"
    by (simp_all add: unsafe_url_byte_def)
  have sub: "set ?t2 \<subseteq> set t \<union> {CHR ''?'', CHR ''#''}"
    using set_tail_query [of t] set_tail_fragment [of t] by auto
  have u2: "\<forall>c\<in>set (n @ p @ ?t2). \<not> unsafe_url_byte c"
  proof
    fix c assume "c \<in> set (n @ p @ ?t2)"
    then have "c \<in> set (n @ p @ t) \<or> c = CHR ''?'' \<or> c = CHR ''#''"
      using sub by auto
    then show "\<not> unsafe_url_byte c" using D(9) uc by blast
  qed
  show ?thesis
    by (rule absolute_url_partsI [OF py_lower_scheme(1,2,3) [OF D(1,2,3)] D(4,5,6,7) h u2])
qed

lemma set_rstrip_char: "set (rstrip_char c s) \<subseteq> set s"
  unfolding rstrip_char_def by (auto dest: set_dropWhileD)

lemma rstrip_char_Nil: "rstrip_char c [] = []"
  by (simp add: rstrip_char_def)

lemma hd_rstrip_char: "rstrip_char c s \<noteq> [] \<Longrightarrow> hd (rstrip_char c s) = hd s"
proof (induction s rule: rev_induct)
  case Nil
  then show ?case by (simp add: rstrip_char_def)
next
  case (snoc x xs)
  show ?case
  proof (cases "x = c")
    case True
    then have e: "rstrip_char c (xs @ [x]) = rstrip_char c xs" by (simp add: rstrip_char_def)
    with snoc.prems have ne: "rstrip_char c xs \<noteq> []" by simp
    then have "xs \<noteq> []" by (auto simp add: rstrip_char_def)
    moreover from snoc.IH [OF ne] have "hd (rstrip_char c xs) = hd xs" .
    ultimately show ?thesis using e by simp
  next
    case False
    then show ?thesis by (simp add: rstrip_char_def)
  qed
qed

lemma absolute_stripped:
  assumes A: "absolute_url_parts s n p t"
  shows "absolute_url_parts (py_lower s) n (rstrip_char CHR ''/'' p) []"
proof -
  let ?p = "rstrip_char CHR ''/'' p"
  note D = absolute_url_partsD [OF A]
  have sub: "set ?p \<subseteq> set p" by (rule set_rstrip_char)
  have p1: "?p = [] \<or> hd ?p = CHR ''/''"
  proof (cases "?p = []")
    case True
    then show ?thesis by (rule disjI1)
  next
    case False
    then have h: "hd ?p = hd p" by (rule hd_rstrip_char)
    from False have "p \<noteq> []" using rstrip_char_Nil [of "CHR ''/''"] by auto
    with D(6) have "hd p = CHR ''/''" by blast
    with h show ?thesis by simp
  qed
  from sub D(7) have p2: "\<forall>c\<in>set ?p. c \<noteq> CHR ''?'' \<and> c \<noteq> CHR ''#'' \<and> c \<noteq> CHR '';''"
    by blast
  have u2: "\<forall>c\<in>set (n @ ?p @ []). \<not> unsafe_url_byte c"
  proof
    fix c assume "c \<in> set (n @ ?p @ [])"
    then have "c \<in> set (n @ p @ t)" using sub by auto
    then show "\<not> unsafe_url_byte c" using D(9) by blast
  qed
  have t: "([]::string) = [] \<or> hd ([]::string) = CHR ''?'' \<or> hd ([]::string) = CHR ''#''"
    by simp
  show ?thesis
    by (rule absolute_url_partsI [OF py_lower_scheme(1,2,3) [OF D(1,2,3)] D(4,5) p1 p2 t u2])
qed

lemma urljoin_other_scheme:
  assumes "base \<noteq> []" "url \<noteq> []" "urlparse host_ok base [] = Inr b"
    "urlparse host_ok url (p_scheme b) = Inr u"
    "p_scheme u \<noteq> p_scheme b \<or> p_scheme u \<notin> set uses_relative"
  shows "urljoin host_ok base url = Inr url"
  using assms by (simp add: urljoin_def)

lemma urljoin_with_netloc:
  assumes "base \<noteq> []" "url \<noteq> []" "urlparse host_ok base [] = Inr b"
    "urlparse host_ok url (p_scheme b) = Inr u"
    "\<not> (p_scheme u \<noteq> p_scheme b \<or> p_scheme u \<notin> set uses_relative)"
    "p_scheme u \<in> set uses_netloc" "p_netloc u \<noteq> []"
  shows "urljoin host_ok base url = Inr (urlunparse u)"
  using assms by (simp add: urljoin_def)

lemma urljoin_absolute:
  assumes A: "absolute_url_parts s n p t"
    and B: "base = [] \<or> urlparse host_ok base [] = Inr b"
  shows "urljoin host_ok base (s @ ''://'' @ n @ p @ t) = Inr (s @ ''://'' @ n @ p @ t) \<or>
         urljoin host_ok base (s @ ''://'' @ n @ p @ t) =
           Inr (py_lower s @ ''://'' @ n @ p @
                ((if tail_query t \<noteq> [] then CHR ''?'' # tail_query t else []) @
                 (if tail_fragment t \<noteq> [] then CHR ''#'' # tail_fragment t else [])))"
proof (cases "base = []")
  case True
  then show ?thesis by (simp add: urljoin_def)
next
  case False
  let ?U = "s @ ''://'' @ n @ p @ t"
  let ?R = "\<lparr>p_scheme = py_lower s, p_netloc = n, p_path = p, p_params = [],
             p_query = tail_query t, p_fragment = tail_fragment t\<rparr>"
  note D = absolute_url_partsD [OF A]
  from False B have b: "urlparse host_ok base [] = Inr b" by blast
  have u: "urlparse host_ok ?U (p_scheme b) = Inr ?R" by (rule urlparse_absolute [OF A])
  have ne: "?U \<noteq> []" using D(1) by simp
  have un: "urlunparse ?R = py_lower s @ ''://'' @ n @ p @
                ((if tail_query t \<noteq> [] then CHR ''?'' # tail_query t else []) @
                 (if tail_fragment t \<noteq> [] then CHR ''#'' # tail_fragment t else []))"
    by (rule urlunparse_absolute [OF py_lower_scheme(1) [OF D(1,2,3)] D(4,6)])
  show ?thesis
  proof (cases "p_scheme ?R \<noteq> p_scheme b \<or> p_scheme ?R \<notin> set uses_relative")
    case True
    from urljoin_other_scheme [OF False ne b u True] show ?thesis by (rule disjI1)
  next
    case c: False
    then have "py_lower s \<in> set uses_netloc" using uses_relative_netloc by auto
    then have nl: "p_scheme ?R \<in> set uses_netloc" by simp
    have nn: "p_netloc ?R \<noteq> []" using D(4) by simp
    from urljoin_with_netloc [OF False ne b u c nl nn] show ?thesis
      unfolding un by (rule disjI2)
  qed
qed

lemma rebuild_absolute:
  assumes A: "absolute_url_parts s n p t"
  shows "rstrip_char CHR ''/'' (py_lower s @ ''://'' @ n @ p) =
         py_lower s @ ''://'' @ n @ rstrip_char CHR ''/'' p"
proof -
  note D = absolute_url_partsD [OF A]
  have "last n \<in> set n" using D(4) by simp
  with D(5) have "\<not> netloc_delim (last n)" by blast
  then have l: "last n \<noteq> CHR ''/''" by (auto simp add: netloc_delim_def)
  have "rstrip_char CHR ''/'' ((py_lower s @ ''://'' @ n) @ p) =
        (py_lower s @ ''://'' @ n) @ rstrip_char CHR ''/'' p"
    using D(4) l by (intro rstrip_char_append) simp_all
  then show ?thesis by simp
qed

lemma normalize_url_crawler_absolute:
  assumes A: "absolute_url_parts s n p t"
  shows "normalize_url_crawler host_ok (s @ ''://'' @ n @ p @ t) =
         Inr (py_lower s @ ''://'' @ n @ rstrip_char CHR ''/'' p)"
  unfolding normalize_url_crawler_def urlparse_absolute [OF A] by simp

lemma normalize_joined_absolute:
  assumes A: "absolute_url_parts s n p t"
    and j: "urljoin host_ok base url = Inr (s @ ''://'' @ n @ p @ t)"
  shows "normalize_url_v02 host_ok base url =
         Inr (py_lower s @ ''://'' @ n @ rstrip_char CHR ''/'' p)"
  unfolding normalize_url_v02_def j using urlparse_absolute [OF A, of host_ok "[]"]
    rebuild_absolute [OF A]
  by simp

lemma normalize_url_v02_absolute:
  assumes A: "absolute_url_parts s n p t"
    and B: "base = [] \<or> urlparse host_ok base [] = Inr b"
  shows "normalize_url_v02 host_ok base (s @ ''://'' @ n @ p @ t) =
         Inr (py_lower s @ ''://'' @ n @ rstrip_char CHR ''/'' p)"
proof -
  note D = absolute_url_partsD [OF A]
  from urljoin_absolute [OF A B] show ?thesis
  proof
    assume "urljoin host_ok base (s @ ''://'' @ n @ p @ t) = Inr (s @ ''://'' @ n @ p @ t)"
    then show ?thesis by (rule normalize_joined_absolute [OF A])
  next
    assume j: "urljoin host_ok base (s @ ''://'' @ n @ p @ t) =
           Inr (py_lower s @ ''://'' @ n @ p @
                ((if tail_query t \<noteq> [] then CHR ''?'' # tail_query t else []) @
                 (if tail_fragment t \<noteq> [] then CHR ''#'' # tail_fragment t else [])))"
    from normalize_joined_absolute [OF absolute_rebuilt [OF A] j]
    show ?thesis unfolding py_lower_scheme(4) [OF D(1,2,3)] .
  qed
qed


text \<open>
  C6, as \<open>_normalize_url\<close> of \<open>Crawler-v02.py\<close> (l.412-416) has it, for an absolute
  URL \<open>s://n p t\<close> and a base URL that is empty or that \<open>urlparse\<close> accepts: the
  result is the scheme in lower case, \<open>://\<close>, the network location as it is written
  (the host is not lowercased), and the path without its trailing slashes; the
  query and the fragment are removed.  It is the canonical form of the
  specification exactly when the network location has no capital and the URL has
  no query.
\<close>

theorem normalize_url_absolute:
  assumes "absolute_url_parts s n p t"
    and "base = [] \<or> urlparse host_ok base [] = Inr b"
  shows "normalize_url_v02 host_ok base (s @ ''://'' @ n @ p @ t) =
           Inr (py_lower s @ ''://'' @ n @ rstrip_char CHR ''/'' p) \<and>
         ((normalize_url_v02 host_ok base (s @ ''://'' @ n @ p @ t) =
             Inr (spec_canonical_url (py_lower s) n p (tail_query t))) =
          (py_lower n = n \<and> tail_query t = []))"
proof -
  have r: "normalize_url_v02 host_ok base (s @ ''://'' @ n @ p @ t) =
           Inr (py_lower s @ ''://'' @ n @ rstrip_char CHR ''/'' p)"
    by (rule normalize_url_v02_absolute [OF assms])
  let ?q = "if tail_query t \<noteq> [] then ''?'' @ tail_query t else []"
  have "(n @ rstrip_char CHR ''/'' p = py_lower n @ rstrip_char CHR ''/'' p @ ?q) =
        (n = py_lower n \<and> rstrip_char CHR ''/'' p = rstrip_char CHR ''/'' p @ ?q)"
    by (rule append_eq_append_conv) (simp add: py_lower_def)
  also have "\<dots> = (py_lower n = n \<and> tail_query t = [])" by auto
  finally have "(py_lower s @ ''://'' @ n @ rstrip_char CHR ''/'' p =
                 spec_canonical_url (py_lower s) n p (tail_query t)) =
                (py_lower n = n \<and> tail_query t = [])"
    by (simp add: spec_canonical_url_def)
  with r show ?thesis by simp
qed

lemma example_base_parsed:
  "urlparse (\<lambda>h. True) ''https://example.com'' [] =
     Inr \<lparr>p_scheme = ''https'', p_netloc = ''example.com'', p_path = [], p_params = [],
          p_query = [], p_fragment = []\<rparr>"
  by code_simp

theorem normalize_url_absolute_witness:
  "absolute_url_parts ''HTTPS'' ''Example.COM'' ''/Path/'' ''?q=1#f'' \<and>
   urlparse (\<lambda>h. True) ''https://example.com'' [] =
     Inr \<lparr>p_scheme = ''https'', p_netloc = ''example.com'', p_path = [], p_params = [],
          p_query = [], p_fragment = []\<rparr> \<and>
   normalize_url_v02 (\<lambda>h. True) ''https://example.com'' ''HTTPS://Example.COM/Path/?q=1#f'' =
     Inr ''https://Example.COM/Path'' \<and>
   tail_query ''?q=1#f'' = ''q=1'' \<and>
   spec_canonical_url ''https'' ''Example.COM'' ''/Path/'' ''q=1'' =
     ''https://example.com/Path?q=1''"
proof -
  have h1: "absolute_url_parts ''HTTPS'' ''Example.COM'' ''/Path/'' ''?q=1#f''" by code_simp
  note inst = normalize_url_absolute [OF h1 disjI2 [OF example_base_parsed], THEN conjunct1]
  have e1: "''HTTPS'' @ ''://'' @ ''Example.COM'' @ ''/Path/'' @ ''?q=1#f'' =
            ''HTTPS://Example.COM/Path/?q=1#f''" by simp
  have e2: "py_lower ''HTTPS'' @ ''://'' @ ''Example.COM'' @ rstrip_char CHR ''/'' ''/Path/'' =
            ''https://Example.COM/Path''" by code_simp
  have q: "tail_query ''?q=1#f'' = ''q=1''" by code_simp
  have c: "spec_canonical_url ''https'' ''Example.COM'' ''/Path/'' ''q=1'' =
     ''https://example.com/Path?q=1''" by code_simp
  from inst [unfolded e1 e2] h1 example_base_parsed q c show ?thesis by (intro conjI)
qed

text \<open>
  C7, for absolute URLs.  On an absolute URL \<open>s://n p t\<close>, with a base URL that is
  empty or that \<open>urlparse\<close> accepts, \<open>_normalize_url\<close> of \<open>Crawler-v02.py\<close> and
  \<open>normalize_url\<close> of \<open>crawler.py\<close> return the same URL, and each of them returns
  that URL again when it is applied to it.  (The path of such a URL has no \<open>;\<close>.)
\<close>

theorem normalize_url_idempotent_absolute:
  assumes "absolute_url_parts s n p t"
    and "base = [] \<or> urlparse host_ok base [] = Inr b"
  shows "normalize_url_v02 host_ok base (s @ ''://'' @ n @ p @ t) =
           Inr (py_lower s @ ''://'' @ n @ rstrip_char CHR ''/'' p) \<and>
         normalize_url_v02 host_ok base (py_lower s @ ''://'' @ n @ rstrip_char CHR ''/'' p) =
           Inr (py_lower s @ ''://'' @ n @ rstrip_char CHR ''/'' p) \<and>
         normalize_url_crawler host_ok (s @ ''://'' @ n @ p @ t) =
           Inr (py_lower s @ ''://'' @ n @ rstrip_char CHR ''/'' p) \<and>
         normalize_url_crawler host_ok (py_lower s @ ''://'' @ n @ rstrip_char CHR ''/'' p) =
           Inr (py_lower s @ ''://'' @ n @ rstrip_char CHR ''/'' p)"
proof -
  note D = absolute_url_partsD [OF assms(1)]
  note A2 = absolute_stripped [OF assms(1)]
  have l: "py_lower (py_lower s) = py_lower s" by (rule py_lower_scheme(4) [OF D(1,2,3)])
  have v1: "normalize_url_v02 host_ok base (s @ ''://'' @ n @ p @ t) =
           Inr (py_lower s @ ''://'' @ n @ rstrip_char CHR ''/'' p)"
    by (rule normalize_url_v02_absolute [OF assms])
  from normalize_url_v02_absolute [OF A2 assms(2)]
  have v2: "normalize_url_v02 host_ok base (py_lower s @ ''://'' @ n @ rstrip_char CHR ''/'' p) =
           Inr (py_lower s @ ''://'' @ n @ rstrip_char CHR ''/'' p)"
    unfolding l rstrip_char_idem by simp
  have c1: "normalize_url_crawler host_ok (s @ ''://'' @ n @ p @ t) =
           Inr (py_lower s @ ''://'' @ n @ rstrip_char CHR ''/'' p)"
    by (rule normalize_url_crawler_absolute [OF assms(1)])
  from normalize_url_crawler_absolute [OF A2]
  have c2: "normalize_url_crawler host_ok (py_lower s @ ''://'' @ n @ rstrip_char CHR ''/'' p) =
           Inr (py_lower s @ ''://'' @ n @ rstrip_char CHR ''/'' p)"
    unfolding l rstrip_char_idem by simp
  from v1 v2 c1 c2 show ?thesis by (intro conjI)
qed

theorem normalize_url_idempotent_absolute_witness:
  "absolute_url_parts ''https'' ''example.com'' ''/docs/guide//'' ''#top'' \<and>
   urlparse (\<lambda>h. True) ''https://example.com'' [] =
     Inr \<lparr>p_scheme = ''https'', p_netloc = ''example.com'', p_path = [], p_params = [],
          p_query = [], p_fragment = []\<rparr> \<and>
   normalize_url_v02 (\<lambda>h. True) ''https://example.com'' ''https://example.com/docs/guide//#top'' =
     Inr ''https://example.com/docs/guide'' \<and>
   normalize_url_v02 (\<lambda>h. True) ''https://example.com'' ''https://example.com/docs/guide'' =
     Inr ''https://example.com/docs/guide'' \<and>
   normalize_url_crawler (\<lambda>h. True) ''https://example.com/docs/guide//#top'' =
     Inr ''https://example.com/docs/guide'' \<and>
   normalize_url_crawler (\<lambda>h. True) ''https://example.com/docs/guide'' =
     Inr ''https://example.com/docs/guide''"
proof -
  have h1: "absolute_url_parts ''https'' ''example.com'' ''/docs/guide//'' ''#top''"
    by code_simp
  note inst = normalize_url_idempotent_absolute [OF h1 disjI2 [OF example_base_parsed]]
  have e1: "''https'' @ ''://'' @ ''example.com'' @ ''/docs/guide//'' @ ''#top'' =
            ''https://example.com/docs/guide//#top''" by simp
  have e2: "py_lower ''https'' @ ''://'' @ ''example.com'' @
              rstrip_char CHR ''/'' ''/docs/guide//'' = ''https://example.com/docs/guide''"
    by code_simp
  from inst [unfolded e1 e2] h1 example_base_parsed show ?thesis by (intro conjI) blast+
qed
section \<open>Properties of the classifier of Crawler-v02.py\<close>

lemma table_distinct: "distinct (concat (map snd downloadable_extensions))"
  by (simp add: downloadable_extensions_def)

lemma first_category_unique:
  "distinct (concat (map snd table)) \<Longrightarrow> first_category table ext = Some c \<Longrightarrow>
   e \<in> set table \<Longrightarrow> ext \<in> set (snd e) \<Longrightarrow> fst e = c"
proof (induction table ext rule: first_category.induct)
  case (1 ext)
  then show ?case by simp
next
  case (2 category extensions rest ext)
  show ?case
  proof (cases "ext \<in> set extensions")
    case True
    with "2.prems" have c: "c = category" by simp
    show ?thesis
    proof (cases "e = (category, extensions)")
      case True
      then show ?thesis using c by simp
    next
      case False
      with "2.prems"(3) have "e \<in> set rest" by simp
      with "2.prems"(4) have "ext \<in> set (concat (map snd rest))" by auto
      with True "2.prems"(1) show ?thesis by auto
    qed
  next
    case False
    with "2.prems" have "first_category rest ext = Some c" "e \<in> set rest" by auto
    with "2.IH" [OF False] "2.prems" show ?thesis by simp
  qed
qed

lemma first_category_Some:
  "first_category table ext = Some c \<Longrightarrow> \<exists>es. (c, es) \<in> set table \<and> ext \<in> set es"
  by (induction table ext rule: first_category.induct) (auto split: if_splits)

text \<open>
  C8.  For every URL that \<open>urlparse\<close> accepts: when the path of the URL has a
  non-empty suffix, \<open>get_file_category\<close> returns one category, a key of the table,
  and the URL goes to the download pipeline; that category is the only key whose
  list holds the lowercased suffix, and it is \<open>other\<close> when no list holds it.  When
  the path has no suffix the result is \<open>None\<close> and the URL goes to \<open>_fetch_url\<close>, as
  an HTML page candidate.
\<close>

theorem get_file_category_total:
  assumes "urlparse host_ok url [] = Inr parsed"
  shows "if path_suffix (p_path parsed) \<noteq> []
         then \<exists>c. get_file_category host_ok url = Inr (Some c) \<and>
                  route_url host_ok url = Inr (Download c) \<and>
                  c \<in> fst ` set downloadable_extensions \<and>
                  (if \<exists>e\<in>set downloadable_extensions.
                        py_lower (path_suffix (p_path parsed)) \<in> set (snd e)
                   then \<forall>e\<in>set downloadable_extensions.
                          py_lower (path_suffix (p_path parsed)) \<in> set (snd e) \<longrightarrow> fst e = c
                   else c = ''other'')
         else get_file_category host_ok url = Inr None \<and> route_url host_ok url = Inr Fetch"
proof (cases "path_suffix (p_path parsed) = []")
  case True
  have "get_file_category host_ok url = Inr None"
    using assms True
    by (simp add: get_file_category_def py_lower_def category_of_ext_def
          downloadable_extensions_def)
  then show ?thesis using True
    by (simp add: route_url_def is_downloadable_file_def)
next
  case False
  let ?ext = "py_lower (path_suffix (p_path parsed))"
  have ne: "?ext \<noteq> []" using False by (simp add: py_lower_def)
  have cat: "get_file_category host_ok url = Inr (category_of_ext ?ext)"
    using assms by (simp add: get_file_category_def)
  show ?thesis
  proof (cases "first_category downloadable_extensions ?ext")
    case None
    then have c: "category_of_ext ?ext = Some ''other''"
      using ne by (simp add: category_of_ext_def)
    have no: "\<not> (\<exists>e\<in>set downloadable_extensions. ?ext \<in> set (snd e))"
      using None by (simp add: first_category_None_iff)
    have key: "''other'' \<in> fst ` set downloadable_extensions"
      by (simp add: downloadable_extensions_def)
    have "get_file_category host_ok url = Inr (Some ''other'') \<and>
          route_url host_ok url = Inr (Download ''other'')"
      using cat c by (simp add: route_url_def is_downloadable_file_def)
    with key no False show ?thesis by (simp only: if_True if_False simp_thms) blast
  next
    case (Some c)
    then have c: "category_of_ext ?ext = Some c" by (simp add: category_of_ext_def)
    from first_category_Some [OF Some] obtain es where
      es: "(c, es) \<in> set downloadable_extensions" "?ext \<in> set es" by blast
    then have key: "c \<in> fst ` set downloadable_extensions" by force
    have yes: "\<exists>e\<in>set downloadable_extensions. ?ext \<in> set (snd e)"
      using es by force
    have uniq: "\<forall>e\<in>set downloadable_extensions. ?ext \<in> set (snd e) \<longrightarrow> fst e = c"
      using first_category_unique [OF table_distinct Some] by blast
    have "get_file_category host_ok url = Inr (Some c) \<and>
          route_url host_ok url = Inr (Download c)"
      using cat c by (simp add: route_url_def is_downloadable_file_def)
    with key yes uniq False show ?thesis by (simp only: if_True if_False simp_thms) blast
  qed
qed

lemma urlparse_report:
  "urlparse host_ok ''https://example.com/docs/Report.PDF?x=1'' [] =
     Inr \<lparr>p_scheme = ''https'', p_netloc = ''example.com'', p_path = ''/docs/Report.PDF'',
          p_params = [], p_query = ''x=1'', p_fragment = []\<rparr>"
  by (simp add: url_eval_defs)

lemma suffix_report: "path_suffix ''/docs/Report.PDF'' = ''.PDF''"
  by (simp add: path_suffix_def path_name_def rfind_char_def Let_def)

lemma lower_report: "py_lower ''.PDF'' = ''.pdf''"
  by (simp add: py_lower_def py_lower_char_def char_of_def bit_iff_odd)

theorem get_file_category_total_witness:
  "\<forall>host_ok.
     path_suffix ''/docs/Report.PDF'' \<noteq> [] \<and>
     get_file_category host_ok ''https://example.com/docs/Report.PDF?x=1'' = Inr (Some ''document'') \<and>
     route_url host_ok ''https://example.com/docs/Report.PDF?x=1'' = Inr (Download ''document'')"
proof
  fix host_ok
  have c: "get_file_category host_ok ''https://example.com/docs/Report.PDF?x=1''
           = Inr (Some ''document'')"
    by (simp add: get_file_category_def urlparse_report suffix_report lower_report
          category_of_ext_def downloadable_extensions_def)
  show "path_suffix ''/docs/Report.PDF'' \<noteq> [] \<and>
     get_file_category host_ok ''https://example.com/docs/Report.PDF?x=1'' = Inr (Some ''document'') \<and>
     route_url host_ok ''https://example.com/docs/Report.PDF?x=1'' = Inr (Download ''document'')"
    using get_file_category_total [OF urlparse_report [of host_ok]] c
    by (simp add: suffix_report)
qed


section \<open>Properties of the proxy manager\<close>

lemma load_proxies_nonempty: "proxies (load_proxies file m) \<noteq> []"
  by (simp add: load_proxies_def Let_def split: option.splits sum.splits)

lemma new_proxy_manager_nonempty: "proxies (new_proxy_manager file now) \<noteq> []"
  by (simp add: new_proxy_manager_def load_proxies_nonempty)

lemma update_proxies_nonempty: "proxies (update_proxies probe now m) \<noteq> []"
proof -
  have "xs \<noteq> [] \<Longrightarrow> sort_key speed_key xs \<noteq> []" for xs :: "proxy list"
    by (metis length_sort length_0_conv)
  then show ?thesis by (simp add: update_proxies_def Let_def)
qed

lemma get_proxy_nonempty:
  "proxies m \<noteq> [] \<Longrightarrow> proxies (snd (get_proxy probe now m)) \<noteq> []"
  by (simp add: get_proxy_def Let_def update_proxies_nonempty)

lemmas proxy_eval_defs =
  new_proxy_manager_def load_proxies_def splitlines_def line_boundary_def proxy_of_line_def
  py_strip_def py_lstrip_def py_rstrip_def py_isspace_def List.map_filter_def
  get_proxy_def update_proxies_def test_all_proxies_def speed_key_def update_interval_def
  direct_def Let_def

lemma three_loaded:
  "new_proxy_manager (Some (Inr ''1.1.1.1:80:u:p
2.2.2.2:80:u:p
3.3.3.3:80:u:p
'')) 0 =
   \<lparr>proxies = [\<lparr>px_http = Some ''http://u:p@1.1.1.1:80'', px_https = Some ''http://u:p@1.1.1.1:80'', px_speed = None\<rparr>,
               \<lparr>px_http = Some ''http://u:p@2.2.2.2:80'', px_https = Some ''http://u:p@2.2.2.2:80'', px_speed = None\<rparr>,
               \<lparr>px_http = Some ''http://u:p@3.3.3.3:80'', px_https = Some ''http://u:p@3.3.3.3:80'', px_speed = None\<rparr>],
     current_index = 0, last_update = 0, total_used = 0,
     successful_requests = 0, failed_requests = 0, rotations = 0\<rparr>"
  by (simp add: proxy_eval_defs)

lemma step_no_update:
  "now - last_update m \<le> update_interval \<Longrightarrow> current_index m < length (proxies m) \<Longrightarrow>
   get_proxy probe now m =
     (Inr (proxies m ! current_index m),
      m\<lparr>total_used := total_used m + 1,
        current_index := (current_index m + 1) mod length (proxies m),
        rotations := rotations m + 1\<rparr>)"
  by (auto simp add: get_proxy_def Let_def)

lemma step_update_shrinks:
  "now - last_update m > update_interval \<Longrightarrow>
   test_all_proxies probe (m\<lparr>total_used := total_used m + 1\<rparr>) = [q] \<Longrightarrow> current_index m \<ge> 1 \<Longrightarrow>
   get_proxy probe now m =
     (Inl IndexError, m\<lparr>total_used := total_used m + 1, proxies := [q], last_update := now\<rparr>)"
  by (simp add: get_proxy_def update_proxies_def Let_def)

text \<open>
  C9 on the code.  The list of proxies is never empty (the four lemmas above), but
  \<open>get_proxy\<close> does not always return an entry: \<open>_update_proxies\<close> replaces the list
  and leaves \<open>current_index\<close> as it was.  Three proxies are loaded and two are handed
  out, so the index is 2; an hour later only the first proxy answers the probe, the
  list shrinks to one entry, and \<open>self.proxies[2]\<close> raises \<open>IndexError\<close> on a
  non-empty list.
\<close>

theorem get_proxy_stale_index_raises:
  "(let file = Some (Inr ''1.1.1.1:80:u:p
2.2.2.2:80:u:p
3.3.3.3:80:u:p
'');
        probe = (\<lambda>p. if px_http p = Some ''http://u:p@1.1.1.1:80'' then Some (1 / 4) else None);
        m0 = new_proxy_manager file 0;
        m1 = snd (get_proxy probe 1 m0);
        m2 = snd (get_proxy probe 2 m1);
        (r, m3) = get_proxy probe (update_interval + 3) m2
    in length (proxies m0) = 3 \<and> current_index m2 = 2 \<and>
       r = Inl IndexError \<and> proxies m3 \<noteq> [] \<and> length (proxies m3) = 1)"
proof -
  let ?probe = "\<lambda>p. if px_http p = Some ''http://u:p@1.1.1.1:80'' then Some (1 / 4 :: real) else None"
  let ?p1 = "\<lparr>px_http = Some ''http://u:p@1.1.1.1:80'', px_https = Some ''http://u:p@1.1.1.1:80'', px_speed = None\<rparr>"
  let ?p2 = "\<lparr>px_http = Some ''http://u:p@2.2.2.2:80'', px_https = Some ''http://u:p@2.2.2.2:80'', px_speed = None\<rparr>"
  let ?p3 = "\<lparr>px_http = Some ''http://u:p@3.3.3.3:80'', px_https = Some ''http://u:p@3.3.3.3:80'', px_speed = None\<rparr>"
  let ?m0 = "\<lparr>proxies = [?p1, ?p2, ?p3], current_index = 0, last_update = 0, total_used = 0,
              successful_requests = 0, failed_requests = 0, rotations = 0\<rparr>"
  let ?m1 = "?m0\<lparr>total_used := 1, current_index := 1, rotations := 1\<rparr>"
  let ?m2 = "?m0\<lparr>total_used := 2, current_index := 2, rotations := 2\<rparr>"
  have s1: "get_proxy ?probe 1 ?m0 = (Inr ?p1, ?m1)"
    by (subst step_no_update) (simp_all add: update_interval_def)
  have s2: "get_proxy ?probe 2 ?m1 = (Inr ?p2, ?m2)"
    by (subst step_no_update) (simp_all add: update_interval_def)
  have t: "test_all_proxies ?probe (?m2\<lparr>total_used := total_used ?m2 + 1\<rparr>)
           = [?p1\<lparr>px_speed := Some (1 / 4)\<rparr>]"
    by (simp add: test_all_proxies_def List.map_filter_def)
  have s3: "get_proxy ?probe (update_interval + 3) ?m2 =
      (Inl IndexError, ?m2\<lparr>total_used := total_used ?m2 + 1,
         proxies := [?p1\<lparr>px_speed := Some (1 / 4)\<rparr>], last_update := update_interval + 3\<rparr>)"
    by (rule step_update_shrinks [OF _ t]) simp_all
  show ?thesis
    unfolding three_loaded Let_def s1 snd_conv s2 s3 by simp
qed


section \<open>Properties of the retry loop\<close>

lemma handle_loop_all_fail:
  "\<forall>i<k. attempt_fails (e_net ev url (length (requests st) + i)) \<Longrightarrow>
   fst (handle_loop cfg ev url a k st) = None \<and>
   requests (snd (handle_loop cfg ev url a k st)) = requests st @ replicate k url \<and>
   slept (snd (handle_loop cfg ev url a k st)) =
     slept st @ map (\<lambda>i. request_delay cfg * real i) [Suc a..<Suc (a + k)] \<and>
   proxy_failures (snd (handle_loop cfg ev url a k st)) = proxy_failures st + k \<and>
   proxy_successes (snd (handle_loop cfg ev url a k st)) = proxy_successes st \<and>
   failed_urls (snd (handle_loop cfg ev url a k st)) =
     (if int a \<le> max_retries cfg - 1 \<and> max_retries cfg - 1 < int (a + k)
      then set_add url (failed_urls st) else failed_urls st) \<and>
   errors (snd (handle_loop cfg ev url a k st)) =
     (if int a \<le> max_retries cfg - 1 \<and> max_retries cfg - 1 < int (a + k)
      then errors st + 1 else errors st)"
proof (induction k arbitrary: a st)
  case 0
  show ?case by auto
next
  case (Suc k)
  let ?st1 = "st\<lparr>requests := requests st @ [url]\<rparr>"
  let ?st2 = "?st1\<lparr>proxy_failures := proxy_failures ?st1 + 1\<rparr>"
  let ?st3 = "if int a = max_retries cfg - 1
              then ?st2\<lparr>failed_urls := set_add url (failed_urls ?st2), errors := errors ?st2 + 1\<rparr>
              else ?st2"
  let ?st4 = "?st3\<lparr>slept := slept ?st3 @ [request_delay cfg * real (a + 1)]\<rparr>"
  have f0: "attempt_fails (e_net ev url (length (requests st)))"
    using Suc.prems by (metis add.right_neutral zero_less_Suc)
  have step: "handle_loop cfg ev url a (Suc k) st = handle_loop cfg ev url (a + 1) k ?st4"
    using f0 by (simp add: Let_def)
  have len: "length (requests ?st4) = Suc (length (requests st))" by simp
  have rest: "\<forall>i<k. attempt_fails (e_net ev url (length (requests ?st4) + i))"
    using Suc.prems unfolding len by (metis Suc_less_eq add_Suc add_Suc_right)
  note ih = Suc.IH [OF rest, of "a + 1"]
  have upt: "[Suc a..<Suc (a + Suc k)] = Suc a # [Suc (a + 1)..<Suc (a + 1 + k)]"
    by (simp add: upt_conv_Cons)
  show ?case
    unfolding step upt using ih
    by (auto simp add: replicate_append_same)
qed

lemma handle_loop_success:
  "j < k \<Longrightarrow>
   \<forall>i<j. attempt_fails (e_net ev url (length (requests st) + i)) \<Longrightarrow>
   e_net ev url (length (requests st) + j) = Inr resp \<Longrightarrow> r_status resp < 400 \<Longrightarrow>
   fst (handle_loop cfg ev url a k st) = Some resp \<and>
   requests (snd (handle_loop cfg ev url a k st)) = requests st @ replicate (Suc j) url \<and>
   slept (snd (handle_loop cfg ev url a k st)) =
     slept st @ map (\<lambda>i. request_delay cfg * real i) [Suc a..<Suc (a + j)] \<and>
   proxy_failures (snd (handle_loop cfg ev url a k st)) = proxy_failures st + j \<and>
   proxy_successes (snd (handle_loop cfg ev url a k st)) = proxy_successes st + 1 \<and>
   failed_urls (snd (handle_loop cfg ev url a k st)) =
     (if int a \<le> max_retries cfg - 1 \<and> max_retries cfg - 1 < int (a + j)
      then set_add url (failed_urls st) else failed_urls st) \<and>
   errors (snd (handle_loop cfg ev url a k st)) =
     (if int a \<le> max_retries cfg - 1 \<and> max_retries cfg - 1 < int (a + j)
      then errors st + 1 else errors st)"
proof (induction k arbitrary: a st j)
  case 0
  then show ?case by simp
next
  case (Suc k)
  show ?case
  proof (cases j)
    case 0
    have ok: "\<not> attempt_fails (e_net ev url (length (requests st)))"
      using Suc.prems(3,4) 0 by (simp add: attempt_fails_def)
    have out: "e_net ev url (length (requests st)) = Inr resp"
      using Suc.prems(3) 0 by simp
    show ?thesis using ok out 0 by (auto simp add: Let_def)
  next
    case (Suc j')
    let ?st1 = "st\<lparr>requests := requests st @ [url]\<rparr>"
    let ?st2 = "?st1\<lparr>proxy_failures := proxy_failures ?st1 + 1\<rparr>"
    let ?st3 = "if int a = max_retries cfg - 1
                then ?st2\<lparr>failed_urls := set_add url (failed_urls ?st2), errors := errors ?st2 + 1\<rparr>
                else ?st2"
    let ?st4 = "?st3\<lparr>slept := slept ?st3 @ [request_delay cfg * real (a + 1)]\<rparr>"
    have f0: "attempt_fails (e_net ev url (length (requests st)))"
      using Suc.prems(2) Suc by (metis add.right_neutral zero_less_Suc)
    have step: "handle_loop cfg ev url a (Suc k) st = handle_loop cfg ev url (a + 1) k ?st4"
      using f0 by (simp add: Let_def)
    have len: "length (requests ?st4) = Suc (length (requests st))" by simp
    have rest: "\<forall>i<j'. attempt_fails (e_net ev url (length (requests ?st4) + i))"
      using Suc.prems(2) Suc unfolding len by (metis Suc_less_eq add_Suc add_Suc_right)
    have hit: "e_net ev url (length (requests ?st4) + j') = Inr resp"
      using Suc.prems(3) Suc unfolding len by simp
    have lt: "j' < k" using Suc.prems(1) Suc by simp
    note ih = Suc.IH [OF lt rest hit Suc.prems(4), of "a + 1"]
    have upt: "[Suc a..<Suc (a + Suc j')] = Suc a # [Suc (a + 1)..<Suc (a + 1 + j')]"
      by (simp add: upt_conv_Cons)
    show ?thesis
      unfolding step Suc upt using ih
      by (auto simp add: replicate_append_same)
  qed
qed

text \<open>
  C3, as \<open>_handle_request\<close> of \<open>Crawler-v02.py\<close> (l.385-410) has it; \<open>crawl_page\<close>
  of \<open>crawler.py\<close> sends a single request, returns at once on a 404 and has no
  retry loop, and is not the subject of this theorem.  A fetch sends at most
  \<open>max_retries\<close> requests.  It
  retries after every failed attempt, whatever the failure: a raised exception
  (transport error, timeout), and any status from 400 on, 404 included.  After
  the failed attempt number \<open>i\<close> it sleeps \<open>request_delay * i\<close>.  When a response
  below 400 arrives the fetch returns it and leaves \<open>failed_urls\<close> and \<open>errors\<close>
  alone.  When all \<open>max_retries\<close> attempts fail the fetch returns \<open>None\<close>, and if
  \<open>max_retries\<close> is positive the URL is in \<open>failed_urls\<close> and \<open>errors\<close> has grown
  by one (with \<open>max_retries \<le> 0\<close> nothing is sent and nothing is recorded).
\<close>

theorem handle_request_retry_policy:
  assumes "handle_request cfg ev url st = (r, st')"
  shows "\<exists>n\<le>nat (max_retries cfg).
           requests st' = requests st @ replicate n url \<and>
           (case r of
              None \<Rightarrow>
                n = nat (max_retries cfg) \<and>
                (\<forall>i<n. attempt_fails (e_net ev url (length (requests st) + i))) \<and>
                slept st' = slept st @ map (\<lambda>i. request_delay cfg * real i) [1..<Suc n] \<and>
                failed_urls st' =
                  (if 0 < max_retries cfg then set_add url (failed_urls st) else failed_urls st) \<and>
                errors st' = (if 0 < max_retries cfg then errors st + 1 else errors st)
            | Some resp \<Rightarrow>
                0 < n \<and> e_net ev url (length (requests st) + (n - 1)) = Inr resp \<and>
                r_status resp < 400 \<and>
                (\<forall>i<n - 1. attempt_fails (e_net ev url (length (requests st) + i))) \<and>
                slept st' = slept st @ map (\<lambda>i. request_delay cfg * real i) [1..<n] \<and>
                failed_urls st' = failed_urls st \<and> errors st' = errors st)"
proof -
  let ?K = "nat (max_retries cfg)"
  let ?f = "\<lambda>i. attempt_fails (e_net ev url (length (requests st) + i))"
  have run: "handle_loop cfg ev url 0 ?K st = (r, st')"
    using assms by (simp add: handle_request_def)
  show ?thesis
  proof (cases "\<forall>i<?K. ?f i")
    case True
    have c: "(int 0 \<le> max_retries cfg - 1 \<and> max_retries cfg - 1 < int (0 + ?K)) = (0 < max_retries cfg)"
      by auto
    note h = handle_loop_all_fail [OF True, of cfg 0, unfolded run fst_conv snd_conv c]
    from h have "r = None \<and> requests st' = requests st @ replicate ?K url \<and>
          slept st' = slept st @ map (\<lambda>i. request_delay cfg * real i) [1..<Suc ?K] \<and>
          failed_urls st' =
            (if 0 < max_retries cfg then set_add url (failed_urls st) else failed_urls st) \<and>
          errors st' = (if 0 < max_retries cfg then errors st + 1 else errors st)"
      by simp
    with True show ?thesis by (intro exI [of _ ?K]) simp
  next
    case False
    define j where "j = (LEAST i. i < ?K \<and> \<not> ?f i)"
    from False have ex: "\<exists>i. i < ?K \<and> \<not> ?f i" by blast
    have j: "j < ?K" "\<not> ?f j" unfolding j_def using LeastI_ex [OF ex] by blast+
    have before: "\<forall>i<j. ?f i"
    proof (intro allI impI)
      fix i assume "i < j"
      then have "\<not> (i < ?K \<and> \<not> ?f i)" unfolding j_def by (rule not_less_Least)
      moreover have "i < ?K" using \<open>i < j\<close> j(1) by simp
      ultimately show "?f i" by blast
    qed
    from j(2) obtain resp where resp: "e_net ev url (length (requests st) + j) = Inr resp"
      "r_status resp < 400"
      by (auto simp add: attempt_fails_def split: sum.splits)
    have c: "\<not> (int 0 \<le> max_retries cfg - 1 \<and> max_retries cfg - 1 < int (0 + j))"
      using j(1) by auto
    note h = handle_loop_success [OF j(1) before resp, of cfg 0,
        unfolded run fst_conv snd_conv if_not_P [OF c]]
    from h have "r = Some resp \<and> requests st' = requests st @ replicate (Suc j) url \<and>
          slept st' = slept st @ map (\<lambda>i. request_delay cfg * real i) [1..<Suc j] \<and>
          failed_urls st' = failed_urls st \<and> errors st' = errors st"
      by simp
    with j(1) before resp show ?thesis by (intro exI [of _ "Suc j"]) simp
  qed
qed

theorem handle_request_retry_policy_witness:
  "(let cfg = \<lparr>base_url = ''https://example.com'', max_pages = 100, concurrent_requests = 5,
               request_delay = 1 / 5, max_retries = 3\<rparr>;
        ok = \<lparr>r_status = 200, r_content_type = ''text/html'', r_text = Inr ''hello''\<rparr>;
        ev = \<lparr>e_net = (\<lambda>url k. if k = 0 then Inr (ok\<lparr>r_status := 503\<rparr>)
                              else if k = 1 then Inl RequestError else Inr ok),
              e_md5 = id, e_soup = Inr, e_anchors = (\<lambda>html. []), e_write_ok = (\<lambda>url. True),
              e_host_ok = (\<lambda>h. True)\<rparr>;
        st = \<lparr>failed_urls = [], content_hashes = [], pages_processed = 0, files_downloaded = 0,
              errors = 0, proxy_successes = 0, proxy_failures = 0, requests = [], slept = [],
              text_files = [], downloads = []\<rparr>;
        res = handle_request cfg ev ''https://example.com/a'' st
    in fst res = Some ok \<and>
       requests (snd res) = replicate 3 ''https://example.com/a'' \<and>
       slept (snd res) = [1 / 5, 2 / 5] \<and> failed_urls (snd res) = [] \<and> errors (snd res) = 0)"
  using handle_request_retry_policy
    [OF prod.collapse [symmetric],
     of "\<lparr>base_url = ''https://example.com'', max_pages = 100, concurrent_requests = 5,
               request_delay = 1 / 5, max_retries = 3\<rparr>"
        "\<lparr>e_net = (\<lambda>url k. if k = 0
                 then Inr \<lparr>r_status = 503, r_content_type = ''text/html'', r_text = Inr ''hello''\<rparr>
                 else if k = 1 then Inl RequestError
                 else Inr \<lparr>r_status = 200, r_content_type = ''text/html'', r_text = Inr ''hello''\<rparr>),
              e_md5 = id, e_soup = Inr, e_anchors = (\<lambda>html. []), e_write_ok = (\<lambda>url. True),
              e_host_ok = (\<lambda>h. True)\<rparr>"
        "''https://example.com/a''"
        "\<lparr>failed_urls = [], content_hashes = [], pages_processed = 0, files_downloaded = 0,
              errors = 0, proxy_successes = 0, proxy_failures = 0, requests = [], slept = [],
              text_files = [], downloads = []\<rparr>"]
  by (simp add: handle_request_def eval_nat_numeral attempt_fails_def Let_def)

text \<open>
  The claim C3 as stated fails on a 404 in \<open>_handle_request\<close> of \<open>Crawler-v02.py\<close>:
  it is retried like any other failure.  With \<open>max_retries = 3\<close> a URL that always
  answers 404 is requested three times.
\<close>

theorem handle_request_404_counterexample:
  "(let cfg = \<lparr>base_url = ''https://example.com'', max_pages = 100, concurrent_requests = 5,
               request_delay = 1 / 5, max_retries = 3\<rparr>;
        ev = \<lparr>e_net = (\<lambda>url k. Inr \<lparr>r_status = 404, r_content_type = ''text/html'',
                                      r_text = Inr []\<rparr>),
              e_md5 = id, e_soup = Inr, e_anchors = (\<lambda>html. []), e_write_ok = (\<lambda>url. True),
              e_host_ok = (\<lambda>h. True)\<rparr>;
        st = \<lparr>failed_urls = [], content_hashes = [], pages_processed = 0, files_downloaded = 0,
              errors = 0, proxy_successes = 0, proxy_failures = 0, requests = [], slept = [],
              text_files = [], downloads = []\<rparr>;
        res = handle_request cfg ev ''https://example.com/missing'' st
    in fst res = None \<and>
       requests (snd res) = replicate 3 ''https://example.com/missing'' \<and>
       length (requests (snd res)) \<noteq> 1 \<and>
       slept (snd res) = [1 / 5, 2 / 5, 3 / 5])"
  by (simp add: handle_request_def eval_nat_numeral attempt_fails_def Let_def set_add_def)



section \<open>Properties of the crawl loop\<close>

text \<open>
  A property that holds before the loop and is kept by every iteration holds
  when the loop ends, and then the condition of the \<open>while\<close> is false.
\<close>

lemma crawl_loop_final:
  assumes "crawl_loop cfg ev domain s = Some (Inr t)" and "P s"
    and "\<And>s s'. P s \<Longrightarrow> queue s \<noteq> [] \<Longrightarrow> int (length (seen_urls s)) < max_pages cfg \<Longrightarrow>
                 crawl_iteration cfg ev domain s = Inr s' \<Longrightarrow> P s'"
  shows "P t \<and> (queue t = [] \<or> max_pages cfg \<le> int (length (seen_urls t)))"
  using assms
proof (induction cfg ev domain s rule: crawl_loop.induct)
  case (1 cfg ev domain s)
  show ?case
  proof (cases "queue s \<noteq> [] \<and> int (length (seen_urls s)) < max_pages cfg")
    case False
    with "1.prems"(1,2) show ?thesis by (auto simp add: crawl_loop.simps [of cfg ev domain s])
  next
    case True
    with "1.prems"(1) have pos: "\<not> concurrent_requests cfg \<le> 0"
      by (auto simp add: crawl_loop.simps [of cfg ev domain s] split: if_splits)
    from True pos "1.prems"(1) obtain s' where
      it: "crawl_iteration cfg ev domain s = Inr s'" and
      rec: "crawl_loop cfg ev domain s' = Some (Inr t)"
      by (cases "crawl_iteration cfg ev domain s")
         (simp_all add: crawl_loop.simps [of cfg ev domain s])
    from True have q: "queue s \<noteq> []" and l: "int (length (seen_urls s)) < max_pages cfg"
      by simp_all
    have "P s'" by (rule "1.prems"(3) [OF "1.prems"(2) q l it])
    from "1.IH" [OF True pos it rec this "1.prems"(3)] show ?thesis .
  qed
qed

text \<open>With a positive batch width the loop ends, with a state or with an exception.\<close>

lemma crawl_loop_returns:
  assumes "0 < concurrent_requests cfg"
  shows "\<exists>r. crawl_loop cfg ev domain s = Some r"
  using assms
proof (induction cfg ev domain s rule: crawl_loop.induct)
  case (1 cfg ev domain s)
  show ?case
  proof (cases "queue s \<noteq> [] \<and> int (length (seen_urls s)) < max_pages cfg")
    case False
    then show ?thesis by (auto simp add: crawl_loop.simps [of cfg ev domain s])
  next
    case True
    from "1.prems" have pos: "\<not> concurrent_requests cfg \<le> 0" by simp
    show ?thesis
    proof (cases "crawl_iteration cfg ev domain s")
      case (Inl e)
      with True pos show ?thesis by (simp add: crawl_loop.simps [of cfg ev domain s])
    next
      case (Inr s')
      from "1.IH" [OF True pos Inr "1.prems"] obtain r where
        "crawl_loop cfg ev domain s' = Some r" by blast
      with True pos Inr show ?thesis by (simp add: crawl_loop.simps [of cfg ev domain s])
    qed
  qed
qed

lemma crawl_returns:
  assumes "0 < concurrent_requests cfg"
  shows "\<exists>r. crawl cfg ev = Some r"
proof (cases "urlparse (e_host_ok ev) (base_url cfg) []")
  case (Inl e)
  then show ?thesis by (simp add: crawl_def)
next
  case (Inr parsed)
  from crawl_loop_returns [OF assms, of ev "p_netloc parsed" "initial_loop_state cfg"]
  show ?thesis by (simp add: crawl_def Inr)
qed

text \<open>
  The frontier: \<open>seen_urls\<close>, in the order of insertion, is the list of the URLs
  dispatched so far followed by the queue, and it has no duplicates.
\<close>

lemma iteration_frontier:
  assumes inv: "seen_urls s = dispatched s @ queue s \<and> distinct (seen_urls s)"
    and it: "crawl_iteration cfg ev domain s = Inr s'"
  shows "seen_urls s' = dispatched s' @ queue s' \<and> distinct (seen_urls s')"
proof -
  let ?b = "min (nat (concurrent_requests cfg)) (length (queue s))"
  from crawl_iteration_appends [OF it] obtain new where
    n: "queue s' = drop ?b (queue s) @ new" "seen_urls s' = seen_urls s @ new"
       "dispatched s' = dispatched s @ take ?b (queue s)" "distinct new"
       "set new \<inter> set (seen_urls s) = {}" by blast
  have "dispatched s' @ queue s' = dispatched s @ (take ?b (queue s) @ drop ?b (queue s)) @ new"
    unfolding n by simp
  also have "\<dots> = seen_urls s'" unfolding n using inv by simp
  finally have a: "seen_urls s' = dispatched s' @ queue s'" by simp
  have "distinct (seen_urls s')" unfolding n(2) using inv n(4,5) by auto
  with a show ?thesis by simp
qed

lemma crawl_final:
  assumes "crawl cfg ev = Some (Inr s)"
  shows "seen_urls s = dispatched s @ queue s \<and> distinct (seen_urls s) \<and>
         (queue s = [] \<or> max_pages cfg \<le> int (length (seen_urls s)))"
proof (cases "urlparse (e_host_ok ev) (base_url cfg) []")
  case (Inl e)
  with assms show ?thesis by (simp add: crawl_def)
next
  case (Inr parsed)
  with assms have run: "crawl_loop cfg ev (p_netloc parsed) (initial_loop_state cfg) = Some (Inr s)"
    by (simp add: crawl_def)
  let ?P = "\<lambda>s. seen_urls s = dispatched s @ queue s \<and> distinct (seen_urls s)"
  have init: "?P (initial_loop_state cfg)" by (simp add: initial_loop_state_def)
  from crawl_loop_final [of cfg ev "p_netloc parsed" "initial_loop_state cfg" s ?P, OF run init]
    iteration_frontier
  show ?thesis by blast
qed

text \<open>
  The URLs dispatched stay below \<open>max_pages\<close>: an iteration starts only while
  \<open>seen_urls\<close> is shorter than \<open>max_pages\<close>, and the batch comes out of the queue.
\<close>

lemma iteration_dispatched:
  assumes inv: "seen_urls s = dispatched s @ queue s"
    and l: "int (length (seen_urls s)) < max_pages cfg"
    and it: "crawl_iteration cfg ev domain s = Inr s'"
  shows "int (length (dispatched s')) < max_pages cfg"
proof -
  let ?b = "min (nat (concurrent_requests cfg)) (length (queue s))"
  from crawl_iteration_appends [OF it] obtain new where
    n: "dispatched s' = dispatched s @ take ?b (queue s)" by blast
  have "length (dispatched s') \<le> length (seen_urls s)" unfolding n inv by simp
  with l show ?thesis by simp
qed

lemma crawl_dispatched:
  assumes "crawl cfg ev = Some (Inr s)"
  shows "dispatched s = [] \<or> int (length (dispatched s)) < max_pages cfg"
proof (cases "urlparse (e_host_ok ev) (base_url cfg) []")
  case (Inl e)
  with assms show ?thesis by (simp add: crawl_def)
next
  case (Inr parsed)
  with assms have run: "crawl_loop cfg ev (p_netloc parsed) (initial_loop_state cfg) = Some (Inr s)"
    by (simp add: crawl_def)
  let ?P = "\<lambda>s. (seen_urls s = dispatched s @ queue s \<and> distinct (seen_urls s)) \<and>
                 (dispatched s = [] \<or> int (length (dispatched s)) < max_pages cfg)"
  have init: "?P (initial_loop_state cfg)" by (simp add: initial_loop_state_def)
  have step: "?P s'" if "?P s" "queue s \<noteq> []" "int (length (seen_urls s)) < max_pages cfg"
    "crawl_iteration cfg ev (p_netloc parsed) s = Inr s'" for s s'
    using iteration_frontier [OF _ that(4)] iteration_dispatched [OF _ that(3,4)] that(1)
    by blast
  from crawl_loop_final [of cfg ev "p_netloc parsed" "initial_loop_state cfg" s ?P, OF run init]
    step
  show ?thesis by blast
qed

text \<open>
  \<open>crawler.py\<close>: over any sequence of claims, a normalised URL is claimed as new
  once when it is not in the table at the start and some call names it, and never
  otherwise.
\<close>

lemma run_claims_once:
  "length (claimed_new host_ok u (run_claims host_ok calls visited)) =
     (if u \<notin> visited \<and> (\<exists>c\<in>set calls. normalize_url_crawler host_ok (snd c) = Inr u)
      then 1 else 0)"
proof (induction calls arbitrary: visited)
  case Nil
  show ?case by (simp add: claimed_new_def)
next
  case (Cons c calls)
  obtain w url where c: "c = (w, url)" by (cases c)
  show ?case
  proof (cases "normalize_url_crawler host_ok url")
    case (Inl e)
    then show ?thesis using Cons.IH [of visited]
      by (simp add: c claim_def claimed_new_def)
  next
    case (Inr n)
    show ?thesis
    proof (cases "n \<in> visited")
      case True
      then show ?thesis using Cons.IH [of visited] Inr
        by (auto simp add: c claim_def claimed_new_def is_visited_def)
    next
      case False
      then show ?thesis using Cons.IH [of "insert n visited"] Inr
        by (auto simp add: c claim_def claimed_new_def is_visited_def mark_as_visited_def)
    qed
  qed
qed

text \<open>What \<open>_handle_request\<close> leaves alone.\<close>

lemma handle_loop_frame:
  "handle_loop cfg ev url attempt left st = (r, st') \<Longrightarrow>
   content_hashes st' = content_hashes st \<and> text_files st' = text_files st \<and>
   pages_processed st' = pages_processed st \<and> downloads st' = downloads st"
proof (induction cfg ev url attempt left st rule: handle_loop.induct)
  case (1 cfg ev url attempt st)
  then show ?case by simp
next
  case (2 cfg ev url attempt left st)
  show ?case
  proof (cases "attempt_fails (e_net ev url (length (requests st)))")
    case True
    from "2.prems" True "2.IH" [OF refl refl True refl refl refl]
    show ?thesis by (auto simp add: Let_def split: if_splits)
  next
    case False
    with "2.prems" show ?thesis by (auto simp add: Let_def split: sum.splits)
  qed
qed

text \<open>A result without data adds nothing, wherever it stands in the batch.\<close>

lemma handle_results_skips_None:
  "handle_results cfg ev domain (rs1 @ (url, None) # rs2) s =
   handle_results cfg ev domain (rs1 @ rs2) s"
proof (induction cfg ev domain rs1 s rule: handle_results.induct)
  case (1 cfg ev domain s)
  show ?case by simp
next
  case (2 cfg ev domain url' rest s)
  then show ?case by simp
next
  case (3 cfg ev domain url' text_content html rest s)
  show ?case
  proof (cases "extract_links cfg ev domain html")
    case (Inl e)
    then show ?thesis by (simp add: Let_def)
  next
    case (Inr new_links)
    obtain q seen where en: "enqueue_links new_links (queue s, seen_urls s) = (q, seen)"
      by (cases "enqueue_links new_links (queue s, seen_urls s)")
    from "3.IH" [OF refl refl Inr] en Inr show ?thesis by (simp add: Let_def)
  qed
qed

text \<open>
  C1.  In \<open>Crawler-v02.py\<close> (\<open>crawl\<close>, l.629-638) a link is appended to the queue
  exactly when it is not in \<open>seen_urls\<close>, and it is added to \<open>seen_urls\<close> in the same
  step: \<^const>\<open>enqueue_links\<close> appends the same duplicate-free list of the links
  not yet seen to both.  When the crawl ends, \<open>seen_urls\<close> in the order of insertion
  is the list of the URLs handed to \<open>_process_url\<close> followed by the queue, without
  duplicates: no URL was dispatched twice.  In \<open>crawler.py\<close> (\<open>crawl_page\<close>,
  l.177-182) the workers claim URLs under the lock: over any sequence of claims,
  starting from any table, a normalised URL is claimed as new exactly once when
  it was not in the table and some call names it, and never otherwise.
\<close>

theorem claim_at_most_once:
  "(crawl cfg ev = Some (Inr s) \<longrightarrow>
      seen_urls s = dispatched s @ queue s \<and> distinct (seen_urls s) \<and>
      distinct (dispatched s)) \<and>
   (\<exists>new. enqueue_links links (q, seen) = (q @ new, seen @ new) \<and> distinct new \<and>
          set new = set links - set seen) \<and>
   length (claimed_new host_ok u (run_claims host_ok calls visited)) =
     (if u \<notin> visited \<and> (\<exists>c\<in>set calls. normalize_url_crawler host_ok (snd c) = Inr u)
      then 1 else 0)"
proof (intro conjI impI)
  assume run: "crawl cfg ev = Some (Inr s)"
  from crawl_final [OF run] show f: "seen_urls s = dispatched s @ queue s" by blast
  from crawl_final [OF run] show d: "distinct (seen_urls s)" by blast
  from d show "distinct (dispatched s)" unfolding f by simp
next
  show "\<exists>new. enqueue_links links (q, seen) = (q @ new, seen @ new) \<and> distinct new \<and>
          set new = set links - set seen"
    by (rule enqueue_links_appends)
next
  show "length (claimed_new host_ok u (run_claims host_ok calls visited)) =
     (if u \<notin> visited \<and> (\<exists>c\<in>set calls. normalize_url_crawler host_ok (snd c) = Inr u)
      then 1 else 0)"
    by (rule run_claims_once)
qed

theorem claim_at_most_once_witness:
  "(let cfg = \<lparr>base_url = ''https://example.com'', max_pages = 10, concurrent_requests = 2,
               request_delay = 0, max_retries = 1\<rparr>;
        ev = \<lparr>e_net = (\<lambda>url k. Inr \<lparr>r_status = 200, r_content_type = ''text/html'',
                                      r_text = Inr url\<rparr>),
              e_md5 = id, e_soup = Inr, e_anchors = (\<lambda>html. [''/a'', ''/b'', ''/b'', ''/'']),
              e_write_ok = (\<lambda>url. True), e_host_ok = (\<lambda>h. True)\<rparr>;
        s = \<lparr>queue = [],
             seen_urls = [''https://example.com'', ''https://example.com/a'',
                          ''https://example.com/b''],
             crawler_state =
               \<lparr>failed_urls = [],
                content_hashes = [''https://example.com'', ''https://example.com/a'',
                                  ''https://example.com/b''],
                pages_processed = 3, files_downloaded = 0, errors = 0,
                proxy_successes = 3, proxy_failures = 0,
                requests = [''https://example.com'', ''https://example.com/a'',
                            ''https://example.com/b''],
                slept = [0, 0],
                text_files = [(''https://example.com'', ''https://example.com''),
                              (''https://example.com/a'', ''https://example.com/a''),
                              (''https://example.com/b'', ''https://example.com/b'')],
                downloads = []\<rparr>,
             dispatched = [''https://example.com'', ''https://example.com/a'',
                           ''https://example.com/b'']\<rparr>;
        calls = [(0, ''https://example.com/a''), (1, ''https://example.com/a/''),
                 (0, ''https://example.com/b'')]
    in crawl cfg ev = Some (Inr s) \<and>
       seen_urls s = dispatched s @ queue s \<and> distinct (seen_urls s) \<and>
       distinct (dispatched s) \<and>
       run_claims (\<lambda>h. True) calls {} =
         [(0, ''https://example.com/a'', Inr New), (1, ''https://example.com/a/'', Inr Seen),
          (0, ''https://example.com/b'', Inr New)] \<and>
       length (claimed_new (\<lambda>h. True) ''https://example.com/a''
                 (run_claims (\<lambda>h. True) calls {})) = 1)"
proof -
  let ?cfg = "\<lparr>base_url = ''https://example.com'', max_pages = 10, concurrent_requests = 2,
               request_delay = 0, max_retries = 1\<rparr>"
  let ?ev = "\<lparr>e_net = (\<lambda>url k. Inr \<lparr>r_status = 200, r_content_type = ''text/html'',
                                      r_text = Inr url\<rparr>),
              e_md5 = id, e_soup = Inr, e_anchors = (\<lambda>html. [''/a'', ''/b'', ''/b'', ''/'']),
              e_write_ok = (\<lambda>url. True), e_host_ok = (\<lambda>h. True)\<rparr>"
  let ?s = "\<lparr>queue = [],
             seen_urls = [''https://example.com'', ''https://example.com/a'',
                          ''https://example.com/b''],
             crawler_state =
               \<lparr>failed_urls = [],
                content_hashes = [''https://example.com'', ''https://example.com/a'',
                                  ''https://example.com/b''],
                pages_processed = 3, files_downloaded = 0, errors = 0,
                proxy_successes = 3, proxy_failures = 0,
                requests = [''https://example.com'', ''https://example.com/a'',
                            ''https://example.com/b''],
                slept = [0, 0],
                text_files = [(''https://example.com'', ''https://example.com''),
                              (''https://example.com/a'', ''https://example.com/a''),
                              (''https://example.com/b'', ''https://example.com/b'')],
                downloads = []\<rparr>,
             dispatched = [''https://example.com'', ''https://example.com/a'',
                           ''https://example.com/b'']\<rparr>"
  let ?calls = "[(0::nat, ''https://example.com/a''), (1, ''https://example.com/a/''),
                 (0, ''https://example.com/b'')]"
  note inst = claim_at_most_once [of ?cfg ?ev ?s "[]" "[]" "[]" "\<lambda>h. True"
      "''https://example.com/a''" ?calls "{}"]
  have run: "crawl ?cfg ?ev = Some (Inr ?s)" by code_simp
  from inst run have a: "seen_urls ?s = dispatched ?s @ queue ?s \<and> distinct (seen_urls ?s) \<and>
       distinct (dispatched ?s)" by blast
  have c: "(if ''https://example.com/a'' \<notin> ({} :: string set) \<and>
               (\<exists>c\<in>set ?calls. normalize_url_crawler (\<lambda>h. True) (snd c) =
                  Inr ''https://example.com/a'')
            then 1 else 0) = (1::nat)"
    by code_simp
  from inst have "length (claimed_new (\<lambda>h. True) ''https://example.com/a''
                 (run_claims (\<lambda>h. True) ?calls {})) =
     (if ''https://example.com/a'' \<notin> ({} :: string set) \<and>
               (\<exists>c\<in>set ?calls. normalize_url_crawler (\<lambda>h. True) (snd c) =
                  Inr ''https://example.com/a'')
            then 1 else 0)" by blast
  then have n: "length (claimed_new (\<lambda>h. True) ''https://example.com/a''
                 (run_claims (\<lambda>h. True) ?calls {})) = 1" unfolding c .
  have r: "run_claims (\<lambda>h. True) ?calls {} =
         [(0, ''https://example.com/a'', Inr New), (1, ''https://example.com/a/'', Inr Seen),
          (0, ''https://example.com/b'', Inr New)]" by code_simp
  show ?thesis unfolding Let_def using run a n r by blast
qed

text \<open>
  C5, as \<open>crawl\<close> of \<open>Crawler-v02.py\<close> (l.621-641) has it.  With a positive
  \<open>concurrent_requests\<close> the crawl ends.  When it ends with a state, the number
  of URLs handed to \<open>_process_url\<close> is below \<open>max_pages\<close> unless none was, and the
  loop stopped because the queue is empty or because \<open>seen_urls\<close> has reached
  \<open>max_pages\<close>.  The size of \<open>seen_urls\<close> is the number of URLs dispatched plus
  the length of the queue; it is not bounded by \<open>max_pages\<close>, because the links of
  a batch are added without looking at the cap.
\<close>

theorem crawl_max_pages:
  "(0 < concurrent_requests cfg \<longrightarrow> (\<exists>r. crawl cfg ev = Some r)) \<and>
   (crawl cfg ev = Some (Inr s) \<longrightarrow>
      (dispatched s = [] \<or> int (length (dispatched s)) < max_pages cfg) \<and>
      (queue s = [] \<or> max_pages cfg \<le> int (length (seen_urls s))) \<and>
      length (seen_urls s) = length (dispatched s) + length (queue s))"
proof (intro conjI impI)
  assume "0 < concurrent_requests cfg"
  then show "\<exists>r. crawl cfg ev = Some r" by (rule crawl_returns)
next
  assume run: "crawl cfg ev = Some (Inr s)"
  show "dispatched s = [] \<or> int (length (dispatched s)) < max_pages cfg"
    by (rule crawl_dispatched [OF run])
  from crawl_final [OF run]
  show "queue s = [] \<or> max_pages cfg \<le> int (length (seen_urls s))" by blast
  from crawl_final [OF run] have "seen_urls s = dispatched s @ queue s" by blast
  then show "length (seen_urls s) = length (dispatched s) + length (queue s)" by simp
qed

theorem crawl_max_pages_witness:
  "(let cfg = \<lparr>base_url = ''https://example.com'', max_pages = 3, concurrent_requests = 1,
               request_delay = 0, max_retries = 1\<rparr>;
        ev = \<lparr>e_net = (\<lambda>url k. Inr \<lparr>r_status = 200, r_content_type = ''text/html'',
                                      r_text = Inr url\<rparr>),
              e_md5 = id, e_soup = Inr, e_anchors = (\<lambda>html. [''/a'']),
              e_write_ok = (\<lambda>url. True), e_host_ok = (\<lambda>h. True)\<rparr>;
        s = \<lparr>queue = [],
             seen_urls = [''https://example.com'', ''https://example.com/a''],
             crawler_state =
               \<lparr>failed_urls = [],
                content_hashes = [''https://example.com'', ''https://example.com/a''],
                pages_processed = 2, files_downloaded = 0, errors = 0,
                proxy_successes = 2, proxy_failures = 0,
                requests = [''https://example.com'', ''https://example.com/a''],
                slept = [0, 0],
                text_files = [(''https://example.com'', ''https://example.com''),
                              (''https://example.com/a'', ''https://example.com/a'')],
                downloads = []\<rparr>,
             dispatched = [''https://example.com'', ''https://example.com/a'']\<rparr>
    in 0 < concurrent_requests cfg \<and> (\<exists>r. crawl cfg ev = Some r) \<and>
       crawl cfg ev = Some (Inr s) \<and>
       (dispatched s = [] \<or> int (length (dispatched s)) < max_pages cfg) \<and>
       (queue s = [] \<or> max_pages cfg \<le> int (length (seen_urls s))) \<and>
       length (seen_urls s) = length (dispatched s) + length (queue s) \<and>
       length (dispatched s) = 2)"
proof -
  let ?cfg = "\<lparr>base_url = ''https://example.com'', max_pages = 3, concurrent_requests = 1,
               request_delay = 0, max_retries = 1\<rparr>"
  let ?ev = "\<lparr>e_net = (\<lambda>url k. Inr \<lparr>r_status = 200, r_content_type = ''text/html'',
                                      r_text = Inr url\<rparr>),
              e_md5 = id, e_soup = Inr, e_anchors = (\<lambda>html. [''/a'']),
              e_write_ok = (\<lambda>url. True), e_host_ok = (\<lambda>h. True)\<rparr>"
  let ?s = "\<lparr>queue = [],
             seen_urls = [''https://example.com'', ''https://example.com/a''],
             crawler_state =
               \<lparr>failed_urls = [],
                content_hashes = [''https://example.com'', ''https://example.com/a''],
                pages_processed = 2, files_downloaded = 0, errors = 0,
                proxy_successes = 2, proxy_failures = 0,
                requests = [''https://example.com'', ''https://example.com/a''],
                slept = [0, 0],
                text_files = [(''https://example.com'', ''https://example.com''),
                              (''https://example.com/a'', ''https://example.com/a'')],
                downloads = []\<rparr>,
             dispatched = [''https://example.com'', ''https://example.com/a'']\<rparr>"
  note inst = crawl_max_pages [of ?cfg ?ev ?s]
  have pos: "0 < concurrent_requests ?cfg" by simp
  have run: "crawl ?cfg ?ev = Some (Inr ?s)" by code_simp
  have two: "length (dispatched ?s) = 2" by simp
  from inst pos have ret: "\<exists>r. crawl ?cfg ?ev = Some r" by blast
  from inst run have rest:
    "(dispatched ?s = [] \<or> int (length (dispatched ?s)) < max_pages ?cfg) \<and>
     (queue ?s = [] \<or> max_pages ?cfg \<le> int (length (seen_urls ?s))) \<and>
     length (seen_urls ?s) = length (dispatched ?s) + length (queue ?s)" by blast
  show ?thesis unfolding Let_def using pos ret run rest two by blast
qed

text \<open>
  The claim C5 as stated fails in \<open>Crawler-v02.py\<close>: with \<open>max_pages = 2\<close> and a
  first page that links to three pages of the site, the crawl ends with four URLs
  in \<open>seen_urls\<close>.
\<close>

theorem crawl_seen_exceeds_max_pages_counterexample:
  "(let cfg = \<lparr>base_url = ''https://example.com'', max_pages = 2, concurrent_requests = 5,
               request_delay = 0, max_retries = 1\<rparr>;
        ev = \<lparr>e_net = (\<lambda>url k. Inr \<lparr>r_status = 200, r_content_type = ''text/html'',
                                      r_text = Inr url\<rparr>),
              e_md5 = id, e_soup = Inr, e_anchors = (\<lambda>html. [''/a'', ''/b'', ''/c'']),
              e_write_ok = (\<lambda>url. True), e_host_ok = (\<lambda>h. True)\<rparr>;
        s = \<lparr>queue = [''https://example.com/a'', ''https://example.com/b'',
                      ''https://example.com/c''],
             seen_urls = [''https://example.com'', ''https://example.com/a'',
                          ''https://example.com/b'', ''https://example.com/c''],
             crawler_state =
               \<lparr>failed_urls = [], content_hashes = [''https://example.com''],
                pages_processed = 1, files_downloaded = 0, errors = 0,
                proxy_successes = 1, proxy_failures = 0,
                requests = [''https://example.com''], slept = [0],
                text_files = [(''https://example.com'', ''https://example.com'')],
                downloads = []\<rparr>,
             dispatched = [''https://example.com'']\<rparr>
    in crawl cfg ev = Some (Inr s) \<and> length (seen_urls s) = 4 \<and>
       max_pages cfg < int (length (seen_urls s)))"
  by code_simp

text \<open>
  C4.  A URL that \<open>_process_url\<close> sends to \<open>_fetch_url\<close> and whose request brings
  an HTML response with a readable body: when the digest of the body is already
  in \<open>content_hashes\<close>, \<open>_process_url\<close> returns \<open>None\<close>, and neither \<open>content_hashes\<close>
  nor the files written by \<open>_save_data\<close> (the text file and the metadata file it
  writes with it) nor \<open>pages_processed\<close> change; otherwise the digest is appended
  to \<open>content_hashes\<close>.  In the loop of \<open>crawl\<close> a result \<open>None\<close> is skipped,
  wherever it stands in the batch: nothing is saved and no link is extracted or
  queued for it.  No iteration removes a URL from \<open>seen_urls\<close>.
\<close>

theorem duplicate_body_discarded:
  assumes "route_url (e_host_ok ev) url = Inr Fetch"
    and "handle_request cfg ev url st = (Some resp, st1)"
    and "py_in ''text/html'' (r_content_type resp)"
    and "r_text resp = Inr content"
  shows "(if e_md5 ev content \<in> set (content_hashes st)
          then process_url cfg ev url st = Inr (None, st1) \<and>
               content_hashes st1 = content_hashes st \<and> text_files st1 = text_files st \<and>
               pages_processed st1 = pages_processed st
          else \<exists>data st2. process_url cfg ev url st = Inr (data, st2) \<and>
                 content_hashes st2 = content_hashes st @ [e_md5 ev content]) \<and>
         handle_results cfg ev domain (rs1 @ (url, None) # rs2) s =
           handle_results cfg ev domain (rs1 @ rs2) s \<and>
         (\<forall>s'. crawl_iteration cfg ev domain s = Inr s' \<longrightarrow>
               (\<exists>new. seen_urls s' = seen_urls s @ new))"
proof -
  from assms(2) have frame:
    "content_hashes st1 = content_hashes st \<and> text_files st1 = text_files st \<and>
     pages_processed st1 = pages_processed st \<and> downloads st1 = downloads st"
    unfolding handle_request_def by (rule handle_loop_frame)
  have p: "process_url cfg ev url st = Inr (fetch_url cfg ev url st)"
    using assms(1) by (simp add: process_url_def)
  have first:
    "if e_md5 ev content \<in> set (content_hashes st)
     then process_url cfg ev url st = Inr (None, st1) \<and>
          content_hashes st1 = content_hashes st \<and> text_files st1 = text_files st \<and>
          pages_processed st1 = pages_processed st
     else \<exists>data st2. process_url cfg ev url st = Inr (data, st2) \<and>
            content_hashes st2 = content_hashes st @ [e_md5 ev content]"
  proof (cases "e_md5 ev content \<in> set (content_hashes st)")
    case True
    then have "fetch_url cfg ev url st = (None, st1)"
      using assms(2,3,4) frame by (simp add: fetch_url_def)
    with True frame p show ?thesis by simp
  next
    case False
    show ?thesis
    proof (cases "e_soup ev content")
      case (Inl e)
      with False assms(2,3,4) frame show ?thesis
        by (simp add: p fetch_url_def Let_def)
    next
      case (Inr text_content)
      with False assms(2,3,4) frame show ?thesis
        by (simp add: p fetch_url_def Let_def)
    qed
  qed
  have third: "\<forall>s'. crawl_iteration cfg ev domain s = Inr s' \<longrightarrow>
                 (\<exists>new. seen_urls s' = seen_urls s @ new)"
    using crawl_iteration_appends by blast
  from first handle_results_skips_None [of cfg ev domain rs1 url rs2 s] third
  show ?thesis by (intro conjI)
qed

theorem duplicate_body_discarded_witness:
  "(let cfg = \<lparr>base_url = ''https://example.com'', max_pages = 10, concurrent_requests = 2,
               request_delay = 0, max_retries = 1\<rparr>;
        ev = \<lparr>e_net = (\<lambda>url k. Inr \<lparr>r_status = 200, r_content_type = ''text/html'',
                                      r_text = Inr ''same''\<rparr>),
              e_md5 = id, e_soup = Inr, e_anchors = (\<lambda>html. [''/a'']),
              e_write_ok = (\<lambda>url. True), e_host_ok = (\<lambda>h. True)\<rparr>;
        url = ''https://example.com/a'';
        st = \<lparr>failed_urls = [], content_hashes = [''same''], pages_processed = 1,
              files_downloaded = 0, errors = 0, proxy_successes = 1, proxy_failures = 0,
              requests = [''https://example.com''], slept = [],
              text_files = [(''https://example.com'', ''same'')], downloads = []\<rparr>;
        resp = \<lparr>r_status = 200, r_content_type = ''text/html'', r_text = Inr ''same''\<rparr>;
        st1 = \<lparr>failed_urls = [], content_hashes = [''same''], pages_processed = 1,
               files_downloaded = 0, errors = 0, proxy_successes = 2, proxy_failures = 0,
               requests = [''https://example.com'', ''https://example.com/a''], slept = [],
               text_files = [(''https://example.com'', ''same'')], downloads = []\<rparr>
    in route_url (e_host_ok ev) url = Inr Fetch \<and>
       handle_request cfg ev url st = (Some resp, st1) \<and>
       py_in ''text/html'' (r_content_type resp) \<and>
       r_text resp = Inr ''same'' \<and>
       e_md5 ev ''same'' \<in> set (content_hashes st) \<and>
       process_url cfg ev url st = Inr (None, st1) \<and>
       content_hashes st1 = content_hashes st \<and> text_files st1 = text_files st \<and>
       pages_processed st1 = pages_processed st \<and>
       (case crawl cfg ev of
          Some (Inr s) \<Rightarrow>
            seen_urls s = [''https://example.com'', ''https://example.com/a''] \<and>
            dispatched s = [''https://example.com'', ''https://example.com/a''] \<and>
            queue s = [] \<and>
            text_files (crawler_state s) = [(''https://example.com'', ''same'')] \<and>
            content_hashes (crawler_state s) = [''same'']
        | _ \<Rightarrow> False))"
proof -
  let ?cfg = "\<lparr>base_url = ''https://example.com'', max_pages = 10, concurrent_requests = 2,
               request_delay = 0, max_retries = 1\<rparr>"
  let ?ev = "\<lparr>e_net = (\<lambda>url k. Inr \<lparr>r_status = 200, r_content_type = ''text/html'',
                                      r_text = Inr ''same''\<rparr>),
              e_md5 = id, e_soup = Inr, e_anchors = (\<lambda>html. [''/a'']),
              e_write_ok = (\<lambda>url. True), e_host_ok = (\<lambda>h. True)\<rparr>"
  let ?url = "''https://example.com/a''"
  let ?st = "\<lparr>failed_urls = [], content_hashes = [''same''], pages_processed = 1,
              files_downloaded = 0, errors = 0, proxy_successes = 1, proxy_failures = 0,
              requests = [''https://example.com''], slept = [],
              text_files = [(''https://example.com'', ''same'')], downloads = []\<rparr>"
  let ?resp = "\<lparr>r_status = 200, r_content_type = ''text/html'', r_text = Inr ''same''\<rparr>"
  let ?st1 = "\<lparr>failed_urls = [], content_hashes = [''same''], pages_processed = 1,
               files_downloaded = 0, errors = 0, proxy_successes = 2, proxy_failures = 0,
               requests = [''https://example.com'', ''https://example.com/a''], slept = [],
               text_files = [(''https://example.com'', ''same'')], downloads = []\<rparr>"
  have h1: "route_url (e_host_ok ?ev) ?url = Inr Fetch" by code_simp
  have h2: "handle_request ?cfg ?ev ?url ?st = (Some ?resp, ?st1)" by code_simp
  have h3: "py_in ''text/html'' (r_content_type ?resp)" by code_simp
  have h4: "r_text ?resp = Inr ''same''" by simp
  have m: "e_md5 ?ev ''same'' \<in> set (content_hashes ?st)" by simp
  note inst = duplicate_body_discarded [OF h1 h2 h3 h4, of "[]" "[]" "[]" "initial_loop_state ?cfg"]
  from inst have
    "if e_md5 ?ev ''same'' \<in> set (content_hashes ?st)
     then process_url ?cfg ?ev ?url ?st = Inr (None, ?st1) \<and>
          content_hashes ?st1 = content_hashes ?st \<and> text_files ?st1 = text_files ?st \<and>
          pages_processed ?st1 = pages_processed ?st
     else \<exists>data st2. process_url ?cfg ?ev ?url ?st = Inr (data, st2) \<and>
            content_hashes st2 = content_hashes ?st @ [e_md5 ?ev ''same'']"
    by (rule conjunct1)
  then have d:
    "process_url ?cfg ?ev ?url ?st = Inr (None, ?st1) \<and>
     content_hashes ?st1 = content_hashes ?st \<and> text_files ?st1 = text_files ?st \<and>
     pages_processed ?st1 = pages_processed ?st"
    by (simp only: m if_True)
  have run: "case crawl ?cfg ?ev of
          Some (Inr s) \<Rightarrow>
            seen_urls s = [''https://example.com'', ''https://example.com/a''] \<and>
            dispatched s = [''https://example.com'', ''https://example.com/a''] \<and>
            queue s = [] \<and>
            text_files (crawler_state s) = [(''https://example.com'', ''same'')] \<and>
            content_hashes (crawler_state s) = [''same'']
        | _ \<Rightarrow> False"
    by code_simp
  show ?thesis unfolding Let_def using h1 h2 h3 h4 m d run by blast
qed
end
